theory Spec2Isabelle
  imports Main "HOL-Library.Word"
begin

section \<open>Machine integers, durations and decimal numerals\<close>

text \<open>
  Go's \<open>int\<close> on the 64-bit platforms is a 64-bit two's complement integer, and
  \<open>time.Duration\<close> is an \<open>int64\<close> count of nanoseconds. Both are modelled as
  \<open>64 word\<close>: \<open>+\<close>, \<open>-\<close> and \<open>*\<close> wrap around as Go's do, and \<open>sint\<close> reads
  the signed value.
\<close>

type_synonym go_int = "64 word"
type_synonym Duration = "64 word"

definition Nanosecond :: Duration where
  "Nanosecond = 1"

definition Second_d :: Duration where
  "Second_d = 1000000000 * Nanosecond"

definition Minute_d :: Duration where
  "Minute_d = 60 * Second_d"

definition Hour_d :: Duration where
  "Hour_d = 60 * Minute_d"

text \<open>The regular expression class \<open>\d\<close> of Go's regexp is the ASCII digits.\<close>

definition is_digit :: "char \<Rightarrow> bool" where
  "is_digit c = (48 \<le> (of_char c :: nat) \<and> (of_char c :: nat) \<le> 57)"

definition digit_of :: "nat \<Rightarrow> char" where
  "digit_of d = char_of (48 + d)"

definition digit_val :: "char \<Rightarrow> nat" where
  "digit_val c = of_char c - 48"

text \<open>The decimal value of a string of digits, most significant digit first.\<close>

definition dec_val :: "string \<Rightarrow> nat" where
  "dec_val ds = foldl (\<lambda>a c. a * 10 + digit_val c) 0 ds"

subsection \<open>\<open>strconv.Itoa\<close>\<close>

text \<open>
  \<open>strconv.Itoa(i)\<close> is \<open>FormatInt(int64(i), 10)\<close>: the decimal digits of the magnitude,
  without leading zeros, after a minus sign when \<open>i\<close> is negative.
\<close>

fun formatBits :: "nat \<Rightarrow> string" where
  "formatBits n = (if n < 10 then [digit_of n] else formatBits (n div 10) @ [digit_of (n mod 10)])"

declare formatBits.simps [simp del]

definition Itoa :: "go_int \<Rightarrow> string" where
  "Itoa i = (if sint i < 0 then CHR ''-'' # formatBits (nat (- sint i)) else formatBits (nat (sint i)))"

subsection \<open>\<open>strconv.Atoi\<close>\<close>

text \<open>
  The errors of the package. \<open>Parse\<close> builds one with \<open>errors.New\<close>; \<open>strconv.Atoi\<close>
  returns a \<open>*NumError\<close> whose \<open>Err\<close> is \<open>ErrSyntax\<close> or \<open>ErrRange\<close> and whose \<open>Num\<close>
  is the text it was given.
\<close>

datatype error = ErrorString string | NumErrSyntax string | NumErrRange string

datatype scan = Value nat | BadSyntax | OutOfRange

text \<open>
  The digit loop of \<open>strconv.ParseUint(s, 10, 64)\<close>: it stops at the first byte that is
  not a digit and at the first step whose value leaves the unsigned 64-bit range.
\<close>

fun ParseUint_loop :: "nat \<Rightarrow> string \<Rightarrow> scan" where
  "ParseUint_loop n [] = Value n"
| "ParseUint_loop n (c # cs) =
     (if \<not> is_digit c then BadSyntax
      else if 2 ^ 64 \<le> n * 10 + digit_val c then OutOfRange
      else ParseUint_loop (n * 10 + digit_val c) cs)"

text \<open>
  \<open>strconv.Atoi(s)\<close> is \<open>ParseInt(s, 10, 0)\<close> converted to \<open>int\<close>: an optional sign, at
  least one digit, and a value in the signed 64-bit range. As in Go it returns a value
  together with an optional error; on a range error the value is the nearest bound.
\<close>

definition Atoi :: "string \<Rightarrow> go_int \<times> error option" where
  "Atoi s =
     (if s = [] then (0, Some (NumErrSyntax s))
      else
        let neg = (hd s = CHR ''-'');
            body = (if hd s = CHR ''+'' \<or> hd s = CHR ''-'' then tl s else s)
        in if body = [] then (0, Some (NumErrSyntax s))
           else (case ParseUint_loop 0 body of
                   BadSyntax \<Rightarrow> (0, Some (NumErrSyntax s))
                 | OutOfRange \<Rightarrow>
                     (if neg then - (2 ^ 63) else 2 ^ 63 - 1, Some (NumErrRange s))
                 | Value un \<Rightarrow>
                     if \<not> neg \<and> 2 ^ 63 \<le> un then (2 ^ 63 - 1, Some (NumErrRange s))
                     else if neg \<and> 2 ^ 63 < un then (- (2 ^ 63), Some (NumErrRange s))
                     else (if neg then - of_nat un else of_nat un, None)))"

section \<open>The compiled pattern\<close>

text \<open>
  The pattern of \<open>compiler\<close> uses literals, the greedy \<open>\d+\<close>, the greedy \<open>?\<close>,
  capture groups and concatenation. Go's regexp finds the leftmost match and, among the
  matches that start there, the one a backtracking search finds first. \<open>ms r (s, caps)\<close>
  lists every way \<open>r\<close> matches a prefix of \<open>s\<close>, in the order of that search: each
  entry is the text left over and the capture groups set on the way.
\<close>

datatype re = Lit char | DigitPlus | Opt re | Cap nat re | Cat re re

type_synonym mstate = "string \<times> string list"

fun ms :: "re \<Rightarrow> mstate \<Rightarrow> mstate list" where
  "ms (Lit c) (s, caps) = (case s of [] \<Rightarrow> [] | x # xs \<Rightarrow> if x = c then [(xs, caps)] else [])"
| "ms DigitPlus (s, caps) =
     map (\<lambda>n. (drop n s, caps)) (rev [1 ..< Suc (length (takeWhile is_digit s))])"
| "ms (Opt r) st = ms r st @ [st]"
| "ms (Cap n r) (s, caps) =
     map (\<lambda>(s', caps'). (s', caps'[n := take (length s - length s') s])) (ms r (s, caps))"
| "ms (Cat r1 r2) st = concat (map (ms r2) (ms r1 st))"

text \<open>
  The source's pattern:
  \<^verbatim>\<open>(R)?(\d+)?/?P(\d+Y)?(\d+M)?(\d+D)?(T)?(\d+H)?(\d+M)?(\d+S)?\<close>
\<close>

definition clock_part :: re where
  "clock_part =
     Cat (Opt (Cap 6 (Lit CHR ''T'')))
    (Cat (Opt (Cap 7 (Cat DigitPlus (Lit CHR ''H''))))
    (Cat (Opt (Cap 8 (Cat DigitPlus (Lit CHR ''M''))))
         (Opt (Cap 9 (Cat DigitPlus (Lit CHR ''S''))))))"

definition date_part :: re where
  "date_part =
     Cat (Opt (Cap 3 (Cat DigitPlus (Lit CHR ''Y''))))
    (Cat (Opt (Cap 4 (Cat DigitPlus (Lit CHR ''M''))))
    (Cat (Opt (Cap 5 (Cat DigitPlus (Lit CHR ''D''))))
         clock_part))"

definition compiler :: re where
  "compiler =
     Cat (Opt (Cap 1 (Lit CHR ''R'')))
    (Cat (Opt (Cap 2 DigitPlus))
    (Cat (Opt (Lit CHR ''/''))
    (Cat (Lit CHR ''P'')
         date_part)))"

text \<open>
  \<open>compiler.FindStringSubmatch(s)\<close>: the match is tried at every position from the left;
  the result holds the whole match and the nine groups (the empty string for a group that
  took no part), and is the empty slice (\<open>nil\<close>) when nothing matches.
\<close>

fun FindStringSubmatch :: "string \<Rightarrow> string list" where
  "FindStringSubmatch s =
     (case ms compiler (s, replicate 10 []) of
        (s', caps) # _ \<Rightarrow> caps[0 := take (length s - length s') s]
      | [] \<Rightarrow> (case s of [] \<Rightarrow> [] | _ # t \<Rightarrow> FindStringSubmatch t))"

declare FindStringSubmatch.simps [simp del]

section \<open>Periods\<close>

datatype chan = NilChan | OpenChan | ClosedChan

record Period =
  Repetitions :: go_int
  Year :: go_int
  Month :: go_int
  Day :: go_int
  Hour :: go_int
  Minute :: go_int
  Second :: go_int
  time :: Duration
  done_ch :: chan
  running :: bool

text \<open>The zero value of the struct.\<close>

definition zero_Period :: Period where
  "zero_Period =
     \<lparr>Repetitions = 0, Year = 0, Month = 0, Day = 0, Hour = 0, Minute = 0, Second = 0,
      time = 0, done_ch = NilChan, running = False\<rparr>"

text \<open>\<open>New\<close> does not use its first argument \<open>now\<close>.\<close>

definition New :: "'t \<Rightarrow> go_int \<Rightarrow> go_int \<Rightarrow> go_int \<Rightarrow> go_int \<Rightarrow> go_int \<Rightarrow> go_int \<Rightarrow> go_int \<Rightarrow> Period" where
  "New now repitions year month day hour minute second =
     (let h = hour * Hour_d;
          m = minute * Minute_d;
          s = second * Second_d;
          t = h + m + s
      in zero_Period\<lparr>Repetitions := repitions, Year := year, Month := month, Day := day,
            Hour := hour, Minute := minute, Second := second, time := t\<rparr>)"

subsection \<open>\<open>Parse\<close>\<close>

text \<open>
  Each block of \<open>Parse\<close> is a step from the result so far to an error (the early
  \<open>return nil, err\<close>) or to the updated result.
\<close>

definition parse_Repetitions :: "string list \<Rightarrow> Period \<Rightarrow> error + Period" where
  "parse_Repetitions matches result =
     (if matches ! 1 = ''R'' then
        (let result = result\<lparr>Repetitions := - 1\<rparr>
         in if matches ! 2 \<noteq> [] then
              (case Atoi (matches ! 2) of
                 (v, Some err) \<Rightarrow> Inl err
               | (v, None) \<Rightarrow> Inr (result\<lparr>Repetitions := v\<rparr>))
            else Inr result)
      else Inr result)"

definition parse_field ::
  "string list \<Rightarrow> nat \<Rightarrow> (go_int \<Rightarrow> Period \<Rightarrow> Period) \<Rightarrow> Period \<Rightarrow> error + Period" where
  "parse_field matches k store result =
     (if matches ! k \<noteq> [] then
        (case Atoi (butlast (matches ! k)) of
           (v, Some err) \<Rightarrow> Inl err
         | (v, None) \<Rightarrow> Inr (store v result))
      else Inr result)"

definition bind_err :: "error + Period \<Rightarrow> (Period \<Rightarrow> error + Period) \<Rightarrow> error + Period" where
  "bind_err x f = (case x of Inl e \<Rightarrow> Inl e | Inr r \<Rightarrow> f r)"

definition Parse :: "string \<Rightarrow> Period option \<times> error option" where
  "Parse s =
     (let result = zero_Period\<lparr>Repetitions := 0, time := 0\<rparr>;
          matches = FindStringSubmatch s
      in if length matches = 0 then (None, Some (ErrorString ''invalid repeat format''))
         else
           (case
              bind_err (bind_err (bind_err (bind_err (bind_err (bind_err
                (parse_Repetitions matches result)
                (parse_field matches 3 (\<lambda>v r. r\<lparr>Year := v\<rparr>)))
                (parse_field matches 4 (\<lambda>v r. r\<lparr>Month := v\<rparr>)))
                (parse_field matches 5 (\<lambda>v r. r\<lparr>Day := v\<rparr>)))
                (parse_field matches 7 (\<lambda>v r. r\<lparr>Hour := v, time := time r + v * Hour_d\<rparr>)))
                (parse_field matches 8 (\<lambda>v r. r\<lparr>Minute := v, time := time r + v * Minute_d\<rparr>)))
                (parse_field matches 9 (\<lambda>v r. r\<lparr>Second := v, time := time r + v * Second_d\<rparr>))
            of
              Inl err \<Rightarrow> (None, Some err)
            | Inr result \<Rightarrow> (Some result, None)))"

subsection \<open>\<open>String\<close>\<close>

definition String :: "Period \<Rightarrow> string" where
  "String r =
     (let result = [];
          timeAdded = False;
          tAdded = False;
          result = (if Repetitions r = 0 then result @ ''R/''
                    else if 0 < sint (Repetitions r) then result @ ''R'' @ Itoa (Repetitions r) @ ''/''
                    else result);
          result = result @ ''P'';
          (result, timeAdded) =
            (if 0 < sint (Year r) then (result @ Itoa (Year r) @ ''Y'', True) else (result, timeAdded));
          (result, timeAdded) =
            (if 0 < sint (Month r) then (result @ Itoa (Month r) @ ''M'', True) else (result, timeAdded));
          (result, timeAdded) =
            (if 0 < sint (Day r) then (result @ Itoa (Day r) @ ''D'', True) else (result, timeAdded));
          (result, timeAdded, tAdded) =
            (if 0 < sint (Hour r) then (result @ ''T'' @ Itoa (Hour r) @ ''H'', True, True)
             else (result, timeAdded, tAdded));
          (result, timeAdded, tAdded) =
            (if 0 < sint (Minute r) then
               (let (result, tAdded) = (if \<not> tAdded then (result @ ''T'', True) else (result, tAdded))
                in (result @ Itoa (Minute r) @ ''M'', True, tAdded))
             else (result, timeAdded, tAdded));
          (result, timeAdded, tAdded) =
            (if 0 < sint (Second r) then
               (let (result, tAdded) = (if \<not> tAdded then (result @ ''T'', True) else (result, tAdded))
                in (result @ Itoa (Second r) @ ''S'', True, tAdded))
             else (result, timeAdded, tAdded));
          result = (if \<not> timeAdded then result @ ''T0S'' else result)
      in result)"

subsection \<open>\<open>Next\<close>\<close>

text \<open>
  \<open>time.Time\<close> and its calendar arithmetic belong to the host library. \<open>Next\<close> uses
  three things of it, taken here as a parameter: the zero value \<open>time.Time{}\<close>,
  \<open>AddDate\<close> and \<open>Add\<close>.
\<close>

record 't Clock =
  zero_Time :: 't
  AddDate :: "'t \<Rightarrow> go_int \<Rightarrow> go_int \<Rightarrow> go_int \<Rightarrow> 't"
  Add :: "'t \<Rightarrow> Duration \<Rightarrow> 't"

text \<open>
  \<open>Next\<close> has a pointer receiver, so it could write to the period. The model returns
  the result together with the receiver as the call leaves it.
\<close>

definition Next :: "'t Clock \<Rightarrow> Period \<Rightarrow> 't \<Rightarrow> 't \<times> Period" where
  "Next clk r now =
     (if Repetitions r = 0 then (zero_Time clk, r)
      else
        let h = Hour_d * Hour r;
            m = Minute_d * Minute r;
            s = Second_d * Second r
        in (Add clk (AddDate clk now (Year r) (Month r) (Day r)) (h + m + s), r))"

text \<open>
  A clock to run \<open>Next\<close> on: instants in UTC as nanoseconds since 1970-01-01T00:00:00Z,
  with the proleptic Gregorian calendar. \<open>AddDate\<close> adds to the year, month and day of
  the date and normalises the result, as \<open>time.Date\<close> does; the zero time is
  0001-01-01T00:00:00Z.
\<close>

definition days_from_civil :: "int \<Rightarrow> int \<Rightarrow> int \<Rightarrow> int" where
  "days_from_civil y m d =
     (let y' = (if m \<le> 2 then y - 1 else y);
          era = y' div 400;
          yoe = y' - era * 400;
          doy = (153 * (if 2 < m then m - 3 else m + 9) + 2) div 5 + d - 1;
          doe = yoe * 365 + yoe div 4 - yoe div 100 + doy
      in era * 146097 + doe - 719468)"

definition civil_from_days :: "int \<Rightarrow> int \<times> int \<times> int" where
  "civil_from_days z =
     (let z' = z + 719468;
          era = z' div 146097;
          doe = z' - era * 146097;
          yoe = (doe - doe div 1460 + doe div 36524 - doe div 146096) div 365;
          doy = doe - (365 * yoe + yoe div 4 - yoe div 100);
          mp = (5 * doy + 2) div 153;
          d = doy - (153 * mp + 2) div 5 + 1;
          m = (if mp < 10 then mp + 3 else mp - 9)
      in ((if m \<le> 2 then yoe + era * 400 + 1 else yoe + era * 400), m, d))"

definition ns_per_day :: int where
  "ns_per_day = 86400 * 1000000000"

definition utc_AddDate :: "int \<Rightarrow> go_int \<Rightarrow> go_int \<Rightarrow> go_int \<Rightarrow> int" where
  "utc_AddDate t years months days =
     (case civil_from_days (t div ns_per_day) of
        (y, m, d) \<Rightarrow>
          let m0 = m - 1 + sint months;
              y1 = y + sint years + m0 div 12;
              m1 = m0 mod 12 + 1
          in (days_from_civil y1 m1 1 + (d + sint days - 1)) * ns_per_day + t mod ns_per_day)"

definition utc_Clock :: "int Clock" where
  "utc_Clock =
     \<lparr>zero_Time = days_from_civil 1 1 1 * ns_per_day,
      AddDate = utc_AddDate,
      Add = (\<lambda>t d. t + sint d)\<rparr>"

subsection \<open>\<open>Start\<close> and \<open>Stop\<close>\<close>

text \<open>
  \<open>Start\<close> makes the two channels, the ticker and the timer, copies \<open>Repetitions\<close> into
  \<open>amount\<close> and spawns the goroutine. The goroutine is modelled by its own transitions:
  its first statement, then one transition for each case its outer \<open>select\<close> takes, then
  its deferred calls when it returns. A world holds the period, the goroutine's locals and
  what the consumer of the returned channel has received.
\<close>

datatype pc = Spawned | Selecting | Exited

record 't World =
  period :: Period
  amount :: go_int
  sender :: chan
  ticker_on :: bool
  timeout_on :: bool
  received :: "'t list"
  at :: pc

definition Start :: "Period \<Rightarrow> 't World" where
  "Start r =
     \<lparr>period = r\<lparr>done_ch := OpenChan\<rparr>,
      amount = Repetitions r,
      sender = OpenChan,
      ticker_on = True,
      timeout_on = True,
      received = [],
      at = Spawned\<rparr>"

text \<open>
  The deferred calls run last registered first: the flag is cleared, \<open>r.done\<close> and
  \<open>sender\<close> are closed, the ticker and the timer are stopped.
\<close>

definition return_deferred :: "'t World \<Rightarrow> 't World" where
  "return_deferred w =
     (let w = w\<lparr>period := (period w)\<lparr>running := False\<rparr>\<rparr>;
          w = w\<lparr>period := (period w)\<lparr>done_ch := ClosedChan\<rparr>\<rparr>;
          w = w\<lparr>sender := ClosedChan\<rparr>;
          w = w\<lparr>ticker_on := False\<rparr>;
          w = w\<lparr>timeout_on := False\<rparr>
      in w\<lparr>at := Exited\<rparr>)"

text \<open>
  What the goroutine does next: \<open>Begin\<close> is its first statement; \<open>RecvTick t ready\<close> is
  the case \<open>t := <-ticker.C\<close>, where \<open>ready\<close> says whether the consumer is receiving
  on \<open>sender\<close> at that moment (otherwise the non-blocking send takes its \<open>default\<close>);
  \<open>RecvDone\<close> is the case \<open><-r.done\<close>. The non-blocking send on \<open>r.done\<close> at the end
  of the budget finds no receiver, the goroutine being the only one, and changes nothing.
\<close>

datatype 't event = Begin | RecvTick 't bool | RecvDone

fun goroutine :: "'t event \<Rightarrow> 't World \<Rightarrow> 't World" where
  "goroutine Begin w =
     (if at w = Spawned then w\<lparr>period := (period w)\<lparr>running := True\<rparr>, at := Selecting\<rparr> else w)"
| "goroutine (RecvTick t ready) w =
     (if at w = Selecting then
        (let w = (if ready then w\<lparr>received := received w @ [t]\<rparr> else w);
             w = (if 0 < sint (amount w) then w\<lparr>amount := amount w - 1\<rparr> else w)
         in if amount w = 0 then return_deferred w else w)
      else w)"
| "goroutine RecvDone w = (if at w = Selecting then return_deferred w else w)"

definition run :: "'t event list \<Rightarrow> 't World \<Rightarrow> 't World" where
  "run evs w = foldl (\<lambda>w e. goroutine e w) w evs"

text \<open>
  \<open>Stop\<close> returns at once when the flag is clear. Otherwise it sends on \<open>r.done\<close>: the
  goroutine takes the value when it is at its \<open>select\<close>, the send panics on a closed
  channel, and it blocks when nobody receives.
\<close>

datatype outcome = Returned | Blocked | Panicked

definition Stop :: "'t World \<Rightarrow> outcome \<times> 't World" where
  "Stop w =
     (if \<not> running (period w) then (Returned, w)
      else if done_ch (period w) = ClosedChan then (Panicked, w)
      else if at w = Selecting \<and> done_ch (period w) = OpenChan then (Returned, goroutine RecvDone w)
      else (Blocked, w))"

section \<open>The statements of the specification\<close>

text \<open>
  The canonical text as the specification words it: the repetition prefix, \<open>P\<close>, the
  strictly positive calendar components, one \<open>T\<close> and the strictly positive clock
  components when there is one, and \<open>T0S\<close> when no component is positive.
\<close>

definition decimal :: "go_int \<Rightarrow> string" where
  "decimal v = formatBits (nat (sint v))"

definition component_text :: "go_int \<Rightarrow> string \<Rightarrow> string" where
  "component_text v unit = (if 0 < sint v then decimal v @ unit else [])"

definition canonical_text :: "Period \<Rightarrow> string" where
  "canonical_text p =
     (if Repetitions p = 0 then ''R/''
      else if 0 < sint (Repetitions p) then ''R'' @ decimal (Repetitions p) @ ''/''
      else [])
     @ ''P''
     @ component_text (Year p) ''Y'' @ component_text (Month p) ''M'' @ component_text (Day p) ''D''
     @ (if 0 < sint (Hour p) \<or> 0 < sint (Minute p) \<or> 0 < sint (Second p) then ''T'' else [])
     @ component_text (Hour p) ''H'' @ component_text (Minute p) ''M'' @ component_text (Second p) ''S''
     @ (if 0 < sint (Year p) \<or> 0 < sint (Month p) \<or> 0 < sint (Day p)
           \<or> 0 < sint (Hour p) \<or> 0 < sint (Minute p) \<or> 0 < sint (Second p)
        then [] else ''T0S'')"

section \<open>The search of the pattern, step by step\<close>

text \<open>
  The first entry of \<open>ms\<close> is the match the search reports. A pattern is \<open>total\<close> when it
  matches at every input. The functions below read the input from the left, one token
  of the pattern at a time, each token taking the longest text it can; the lemmas after
  them show that the search of \<open>compiler\<close> finds exactly what they compute.
\<close>

definition first :: "re \<Rightarrow> mstate \<Rightarrow> mstate option" where
  "first r st = (case ms r st of [] \<Rightarrow> None | x # _ \<Rightarrow> Some x)"

definition total :: "re \<Rightarrow> bool" where
  "total r = (\<forall>st. ms r st \<noteq> [])"

definition tok :: "char \<Rightarrow> string \<Rightarrow> bool" where
  "tok c s = (takeWhile is_digit s \<noteq> [] \<and> dropWhile is_digit s \<noteq> [] \<and> hd (dropWhile is_digit s) = c)"

definition opt_tok :: "nat \<Rightarrow> char \<Rightarrow> mstate \<Rightarrow> mstate" where
  "opt_tok n c st =
     (case st of (s, caps) \<Rightarrow>
        if tok c s then (tl (dropWhile is_digit s), caps[n := takeWhile is_digit s @ [c]])
        else (s, caps))"

definition opt_lit :: "nat \<Rightarrow> char \<Rightarrow> mstate \<Rightarrow> mstate" where
  "opt_lit n c st =
     (case st of (s, caps) \<Rightarrow>
        if s \<noteq> [] \<and> hd s = c then (tl s, caps[n := [c]]) else (s, caps))"

definition scan_tail :: "mstate \<Rightarrow> mstate" where
  "scan_tail st =
     opt_tok 9 CHR ''S'' (opt_tok 8 CHR ''M'' (opt_tok 7 CHR ''H'' (opt_lit 6 CHR ''T''
       (opt_tok 5 CHR ''D'' (opt_tok 4 CHR ''M'' (opt_tok 3 CHR ''Y'' st))))))"

definition opt_digits :: "nat \<Rightarrow> mstate \<Rightarrow> mstate" where
  "opt_digits n st =
     (case st of (s, caps) \<Rightarrow>
        if takeWhile is_digit s \<noteq> [] then (dropWhile is_digit s, caps[n := takeWhile is_digit s])
        else (s, caps))"

definition skip_slash :: "mstate \<Rightarrow> mstate" where
  "skip_slash st = (case st of (s, caps) \<Rightarrow> if s \<noteq> [] \<and> hd s = CHR ''/'' then (tl s, caps) else (s, caps))"

definition scan_head :: "mstate \<Rightarrow> mstate option" where
  "scan_head st =
     (case skip_slash (opt_digits 2 (opt_lit 1 CHR ''R'' st)) of (s, caps) \<Rightarrow>
        if s \<noteq> [] \<and> hd s = CHR ''P'' then Some (tl s, caps) else None)"

definition PT :: re where "PT = Cat (Lit CHR ''P'') date_part"

definition R2 :: re where "R2 = Cat (Opt (Lit CHR ''/'')) PT"

definition R1 :: re where "R1 = Cat (Opt (Cap 2 DigitPlus)) R2"

text \<open>
  What \<open>Parse\<close> converts: the repetition count is read only after an \<open>R\<close>, and a
  component only when its group took part in the match.
\<close>

definition rep_conv :: "string list \<Rightarrow> go_int \<times> error option" where
  "rep_conv matches =
     (if matches ! 1 = ''R'' then (if matches ! 2 \<noteq> [] then Atoi (matches ! 2) else (- 1, None))
      else (0, None))"

definition field_conv :: "string list \<Rightarrow> nat \<Rightarrow> go_int \<times> error option" where
  "field_conv matches k = (if matches ! k \<noteq> [] then Atoi (butlast (matches ! k)) else (0, None))"

text \<open>A group for a component is empty or a numeral followed by the unit letter.\<close>

definition numeral_group :: "char \<Rightarrow> string \<Rightarrow> bool" where
  "numeral_group c g =
     (g = [] \<or> (butlast g \<noteq> [] \<and> list_all is_digit (butlast g) \<and> last g = c))"

text \<open>
  The shape of a match: the whole text and nine groups; the whole text is the groups in
  their order, with the \<open>P\<close> and the optional \<open>/\<close> that no group holds.
\<close>

definition match_shape :: "string list \<Rightarrow> bool" where
  "match_shape m =
     (length m = 10
      \<and> (m ! 1 = [] \<or> m ! 1 = ''R'') \<and> list_all is_digit (m ! 2)
      \<and> numeral_group CHR ''Y'' (m ! 3) \<and> numeral_group CHR ''M'' (m ! 4)
      \<and> numeral_group CHR ''D'' (m ! 5) \<and> (m ! 6 = [] \<or> m ! 6 = ''T'')
      \<and> numeral_group CHR ''H'' (m ! 7) \<and> numeral_group CHR ''M'' (m ! 8)
      \<and> numeral_group CHR ''S'' (m ! 9)
      \<and> (m ! 0 = m ! 1 @ m ! 2 @ ''P'' @ m ! 3 @ m ! 4 @ m ! 5 @ m ! 6 @ m ! 7 @ m ! 8 @ m ! 9
         \<or> m ! 0 = m ! 1 @ m ! 2 @ ''/P'' @ m ! 3 @ m ! 4 @ m ! 5 @ m ! 6 @ m ! 7 @ m ! 8 @ m ! 9))"

text \<open>The parts of the canonical text that hold the clock components.\<close>

definition clock_T :: "Period \<Rightarrow> string" where
  "clock_T p = (if 0 < sint (Hour p) \<or> 0 < sint (Minute p) \<or> 0 < sint (Second p) then ''T'' else [])"

definition clock_text :: "Period \<Rightarrow> string" where
  "clock_text p = component_text (Hour p) ''H'' @ component_text (Minute p) ''M'' @ component_text (Second p) ''S''"

text \<open>
  What a component of a parsed period holds, given the text of its group: 0 when the
  group took no part in the match, and otherwise the value of the group's decimal
  numeral, which is not negative.
\<close>

definition stored :: "string \<Rightarrow> char \<Rightarrow> go_int \<Rightarrow> bool" where
  "stored g c v =
     (if g = [] then v = 0
      else last g = c \<and> butlast g \<noteq> [] \<and> list_all is_digit (butlast g)
           \<and> 0 \<le> sint v \<and> sint v = int (dec_val (butlast g)))"

text \<open>
  What holds of the stream started on a period with \<open>n\<close> repetitions, at every moment:
  the values received and the budget left make at most \<open>n\<close>; the budget is positive
  while the goroutine runs; and once it has returned the channels are closed and the flag
  is clear.
\<close>

definition stream_inv :: "nat \<Rightarrow> 't World \<Rightarrow> bool" where
  "stream_inv n w =
     (if at w = Exited
      then length (received w) \<le> n \<and> sender w = ClosedChan
           \<and> \<not> running (period w) \<and> done_ch (period w) = ClosedChan
      else length (received w) + nat (sint (amount w)) \<le> n \<and> 0 < sint (amount w))"

section \<open>Lemmas on the pattern\<close>

lemma concat_map_rev_upt:
  assumes "\<And>n. 1 \<le> n \<Longrightarrow> n < k \<Longrightarrow> f n = []"
  shows "concat (map f (rev [1 ..< Suc k])) = (if k = 0 then [] else f k)"
proof (cases k)
  case 0
  then show ?thesis by simp
next
  case (Suc j)
  have "concat (map f (rev [1 ..< k])) = []"
    using assms by (intro iffD2[OF concat_eq_Nil_conv]) auto
  then show ?thesis using Suc by simp
qed

lemma drop_takeWhile_length: "drop (length (takeWhile P s)) s = dropWhile P s"
  by (induction s) auto

lemma take_takeWhile_length: "take (length (takeWhile P s)) s = takeWhile P s"
  by (induction s) auto

lemma drop_in_digits:
  assumes "n < length (takeWhile is_digit s)"
  shows "\<exists>x xs. drop n s = x # xs \<and> is_digit x"
proof -
  have len: "n < length s" using assms length_takeWhile_le[of is_digit s] by (meson le_trans not_le)
  have "s ! n = takeWhile is_digit s ! n" using assms by (simp add: takeWhile_nth)
  moreover have "is_digit (takeWhile is_digit s ! n)"
    using assms nth_mem[OF assms] by (meson set_takeWhileD)
  ultimately have "is_digit (s ! n)" by simp
  moreover have "drop n s = s ! n # drop (Suc n) s" using len by (simp add: Cons_nth_drop_Suc)
  ultimately show ?thesis by blast
qed

lemma dropWhile_hd_not_digit: "dropWhile is_digit s \<noteq> [] \<Longrightarrow> \<not> is_digit (hd (dropWhile is_digit s))"
  using hd_dropWhile by blast

lemma ms_Lit_hd: "ms (Lit c) (s, caps) = (if s \<noteq> [] \<and> hd s = c then [(tl s, caps)] else [])"
  by (cases s) auto

lemma ms_digits_lit:
  assumes c: "\<not> is_digit c"
  shows "ms (Cat DigitPlus (Lit c)) (s, caps) =
           (if tok c s then [(tl (dropWhile is_digit s), caps)] else [])"
proof -
  let ?k = "length (takeWhile is_digit s)"
  let ?f = "\<lambda>n. ms (Lit c) (drop n s, caps)"
  have small: "?f n = []" if a: "1 \<le> n" and b: "n < ?k" for n
  proof -
    obtain x xs where "drop n s = x # xs" "is_digit x" using drop_in_digits[OF b] by blast
    then show ?thesis using c by auto
  qed
  have "ms (Cat DigitPlus (Lit c)) (s, caps) = concat (map ?f (rev [1 ..< Suc ?k]))"
    by (simp add: comp_def)
  also have "\<dots> = (if ?k = 0 then [] else ?f ?k)"
    using small by (rule concat_map_rev_upt)
  also have "\<dots> = (if tok c s then [(tl (dropWhile is_digit s), caps)] else [])"
    unfolding drop_takeWhile_length ms_Lit_hd tok_def by auto
  finally show ?thesis .
qed

lemma first_Opt: "first (Opt r) st = (case first r st of None \<Rightarrow> Some st | Some x \<Rightarrow> Some x)"
  by (simp add: first_def split: list.splits)

lemma length_dropWhile_tl:
  "dropWhile P s \<noteq> [] \<Longrightarrow> length s - length (tl (dropWhile P s)) = Suc (length (takeWhile P s))"
proof -
  assume a: "dropWhile P s \<noteq> []"
  have "length s = length (takeWhile P s) + length (dropWhile P s)"
    by (induction s) auto
  moreover have "length (dropWhile P s) = Suc (length (tl (dropWhile P s)))" using a by (cases "dropWhile P s") auto
  ultimately show ?thesis by linarith
qed

lemma take_Suc_takeWhile:
  "dropWhile P s \<noteq> [] \<Longrightarrow> take (Suc (length (takeWhile P s))) s = takeWhile P s @ [hd (dropWhile P s)]"
proof -
  assume a: "dropWhile P s \<noteq> []"
  obtain x xs where d: "dropWhile P s = x # xs" using a by (cases "dropWhile P s") auto
  have "s = takeWhile P s @ x # xs" by (simp only: d[symmetric] takeWhile_dropWhile_id)
  then have "take (Suc (length (takeWhile P s))) s = take (Suc (length (takeWhile P s))) (takeWhile P s @ x # xs)" by simp
  also have "\<dots> = takeWhile P s @ [x]" by simp
  finally show ?thesis using d by simp
qed

lemma first_opt_tok:
  assumes c: "\<not> is_digit c"
  shows "first (Opt (Cap n (Cat DigitPlus (Lit c)))) st = Some (opt_tok n c st)"
proof (cases st)
  case (Pair s caps)
  show ?thesis
  proof (cases "tok c s")
    case True
    then have d: "dropWhile is_digit s \<noteq> []" and h: "hd (dropWhile is_digit s) = c" by (auto simp: tok_def)
    show ?thesis unfolding Pair first_def opt_tok_def
      using True h by (simp add: ms_digits_lit[OF c] length_dropWhile_tl[OF d] take_Suc_takeWhile[OF d] del: ms.simps(5) length_tl)
  next
    case False
    then show ?thesis unfolding Pair first_def opt_tok_def
      by (simp add: ms_digits_lit[OF c] del: ms.simps(5))
  qed
qed

lemma first_opt_lit: "first (Opt (Cap n (Lit c))) st = Some (opt_lit n c st)"
  by (cases st) (auto simp: first_def opt_lit_def split: list.splits)

lemma total_Opt: "total (Opt r)"
  by (simp add: total_def)

lemma total_Cat: "total r1 \<Longrightarrow> total r2 \<Longrightarrow> total (Cat r1 r2)"
proof -
  assume t1: "total r1" and t2: "total r2"
  have "ms (Cat r1 r2) st \<noteq> []" for st
  proof -
    have "ms r1 st \<noteq> []" using t1 unfolding total_def by blast
    then obtain x xs where x: "ms r1 st = x # xs" by (cases "ms r1 st") auto
    have "ms r2 x \<noteq> []" using t2 unfolding total_def by blast
    then show ?thesis using x by simp
  qed
  then show ?thesis unfolding total_def by blast
qed

lemma first_Cat_total:
  "total r2 \<Longrightarrow> first (Cat r1 r2) st = (case first r1 st of None \<Rightarrow> None | Some st' \<Rightarrow> first r2 st')"
proof (cases "ms r1 st")
  case Nil
  then show ?thesis by (simp add: first_def)
next
  case (Cons x xs)
  assume "total r2"
  then have "ms r2 x \<noteq> []" unfolding total_def by blast
  then obtain y ys where "ms r2 x = y # ys" by (cases "ms r2 x") auto
  then show ?thesis using Cons by (simp add: first_def)
qed

lemma not_digit_letters [simp]:
  "\<not> is_digit CHR ''Y''" "\<not> is_digit CHR ''M''" "\<not> is_digit CHR ''D''" "\<not> is_digit CHR ''H''"
  "\<not> is_digit CHR ''S''" "\<not> is_digit CHR ''T''" "\<not> is_digit CHR ''P''" "\<not> is_digit CHR ''R''"
  "\<not> is_digit CHR ''/''"
  by (simp_all add: is_digit_def)

lemma total_clock_part: "total clock_part"
  unfolding clock_part_def by (intro total_Cat total_Opt)

lemma first_clock_part:
  "first clock_part st =
     Some (opt_tok 9 CHR ''S'' (opt_tok 8 CHR ''M'' (opt_tok 7 CHR ''H'' (opt_lit 6 CHR ''T'' st))))"
  unfolding clock_part_def
  by (simp add: first_Cat_total total_Cat total_Opt first_opt_tok first_opt_lit del: ms.simps)

lemma first_date_part: "first date_part st = Some (scan_tail st)"
  unfolding date_part_def scan_tail_def
  by (simp add: first_Cat_total total_Cat total_Opt total_clock_part first_opt_tok first_clock_part
        del: ms.simps)

lemma ms_date_part: "\<exists>rest. ms date_part st = scan_tail st # rest"
  using first_date_part[of st] by (auto simp: first_def split: list.splits)

lemma ms_PT: "ms PT (s, caps) = (if s \<noteq> [] \<and> hd s = CHR ''P'' then ms date_part (tl s, caps) else [])"
  unfolding PT_def by (simp add: ms_Lit_hd del: ms.simps(1))

lemma ms_R2: "ms R2 (s, caps) = ms PT (skip_slash (s, caps))"
proof (cases "s \<noteq> [] \<and> hd s = CHR ''/''")
  case True
  then have "ms PT (s, caps) = []" by (simp add: ms_PT)
  then show ?thesis using True unfolding R2_def skip_slash_def by (simp add: ms_Lit_hd del: ms.simps(1))
next
  case False
  then show ?thesis unfolding R2_def skip_slash_def by (auto simp add: ms_Lit_hd simp del: ms.simps(1))
qed

lemma ms_R2_digit: "s \<noteq> [] \<Longrightarrow> is_digit (hd s) \<Longrightarrow> ms R2 (s, caps) = []"
  by (auto simp: ms_R2 ms_PT skip_slash_def)

lemma ms_R1: "ms R1 (s, caps) = ms R2 (opt_digits 2 (s, caps))"
proof -
  let ?k = "length (takeWhile is_digit s)"
  let ?f = "\<lambda>n. ms R2 (drop n s, caps[2 := take n s])"
  have small: "?f n = []" if a: "1 \<le> n" and b: "n < ?k" for n
  proof -
    obtain x xs where "drop n s = x # xs" "is_digit x" using drop_in_digits[OF b] by blast
    then show ?thesis by (simp add: ms_R2_digit)
  qed
  have len: "length s - (length s - n) = n" if "n \<le> length s" for n using that by simp
  have "ms (Opt (Cap 2 DigitPlus)) (s, caps) =
          map (\<lambda>n. (drop n s, caps[2 := take (length s - (length s - n)) s])) (rev [1 ..< Suc ?k]) @ [(s, caps)]"
    by (simp add: comp_def)
  also have "map (\<lambda>n. (drop n s, caps[2 := take (length s - (length s - n)) s])) (rev [1 ..< Suc ?k])
           = map (\<lambda>n. (drop n s, caps[2 := take n s])) (rev [1 ..< Suc ?k])"
  proof (rule map_cong[OF refl])
    fix n assume "n \<in> set (rev [1 ..< Suc ?k])"
    then have "n \<le> ?k" by auto
    then have "n \<le> length s" using length_takeWhile_le[of is_digit s] by (rule le_trans)
    then show "(drop n s, caps[2 := take (length s - (length s - n)) s]) = (drop n s, caps[2 := take n s])"
      by (simp add: len)
  qed
  finally have opt: "ms (Opt (Cap 2 DigitPlus)) (s, caps) =
      map (\<lambda>n. (drop n s, caps[2 := take n s])) (rev [1 ..< Suc ?k]) @ [(s, caps)]" .
  have "ms R1 (s, caps) = concat (map ?f (rev [1 ..< Suc ?k])) @ ms R2 (s, caps)"
    unfolding R1_def ms.simps(5) opt by (simp add: comp_def del: ms.simps)
  also have "concat (map ?f (rev [1 ..< Suc ?k])) = (if ?k = 0 then [] else ?f ?k)"
    using small by (rule concat_map_rev_upt)
  finally have eq: "ms R1 (s, caps) = (if ?k = 0 then [] else ?f ?k) @ ms R2 (s, caps)" .
  show ?thesis
  proof (cases "takeWhile is_digit s = []")
    case True
    then show ?thesis using eq by (simp add: opt_digits_def)
  next
    case False
    then have "s \<noteq> []" "is_digit (hd s)" by (cases s; auto split: if_splits)+
    then have "ms R2 (s, caps) = []" by (rule ms_R2_digit)
    then show ?thesis using eq False
      by (simp add: opt_digits_def drop_takeWhile_length take_takeWhile_length)
  qed
qed

lemma ms_R1_R: "s \<noteq> [] \<Longrightarrow> hd s = CHR ''R'' \<Longrightarrow> ms R1 (s, caps) = []"
proof -
  assume a: "s \<noteq> []" "hd s = CHR ''R''"
  then have "takeWhile is_digit s = []" by (cases s) auto
  then show ?thesis using a by (simp add: ms_R1 opt_digits_def ms_R2 skip_slash_def ms_PT)
qed

lemma ms_Cat_Opt_Cap_Lit:
  "ms (Cat (Opt (Cap n (Lit c))) r) (s, caps) =
     (if s \<noteq> [] \<and> hd s = c then ms r (tl s, caps[n := [c]]) @ ms r (s, caps) else ms r (s, caps))"
  by (cases s) auto

lemma ms_compiler_R1: "ms compiler (s, caps) = ms R1 (opt_lit 1 CHR ''R'' (s, caps))"
proof -
  have c: "compiler = Cat (Opt (Cap 1 (Lit CHR ''R''))) R1"
    by (simp add: compiler_def R1_def R2_def PT_def)
  show ?thesis unfolding c ms_Cat_Opt_Cap_Lit opt_lit_def by (simp add: ms_R1_R)
qed

lemma ms_compiler:
  "ms compiler st = (case scan_head st of None \<Rightarrow> [] | Some st' \<Rightarrow> ms date_part st')"
proof (cases st)
  case (Pair s caps)
  obtain s1 c1 where o1: "opt_lit 1 CHR ''R'' (s, caps) = (s1, c1)" by (cases "opt_lit 1 CHR ''R'' (s, caps)")
  obtain s2 c2 where o2: "opt_digits 2 (s1, c1) = (s2, c2)" by (cases "opt_digits 2 (s1, c1)")
  obtain s3 c3 where o3: "skip_slash (s2, c2) = (s3, c3)" by (cases "skip_slash (s2, c2)")
  have "ms compiler (s, caps) = ms PT (s3, c3)"
    by (simp only: ms_compiler_R1 o1 ms_R1 o2 ms_R2 o3)
  then show ?thesis unfolding Pair scan_head_def o1 o2 o3 by (simp add: ms_PT)
qed

lemma FindStringSubmatch_scan:
  "FindStringSubmatch s =
     (case scan_head (s, replicate 10 []) of
        Some st \<Rightarrow> (case scan_tail st of (s', caps) \<Rightarrow> caps[0 := take (length s - length s') s])
      | None \<Rightarrow> (case s of [] \<Rightarrow> [] | _ # t \<Rightarrow> FindStringSubmatch t))"
proof (cases "scan_head (s, replicate 10 [])")
  case None
  then show ?thesis by (subst FindStringSubmatch.simps) (simp add: ms_compiler)
next
  case (Some st)
  obtain rest where "ms date_part st = scan_tail st # rest" using ms_date_part by blast
  then show ?thesis using Some by (subst FindStringSubmatch.simps) (simp add: ms_compiler split: prod.splits)
qed

subsection \<open>Decimal numerals\<close>

lemma is_digit_digit_of: "d < 10 \<Longrightarrow> is_digit (digit_of d)"
  by (simp add: is_digit_def digit_of_def)

lemma digit_val_digit_of: "d < 10 \<Longrightarrow> digit_val (digit_of d) = d"
  by (simp add: digit_val_def digit_of_def)

lemma formatBits_digits: "list_all is_digit (formatBits n)"
proof (induction n rule: formatBits.induct)
  case (1 n)
  show ?case
  proof (cases "n < 10")
    case True
    then show ?thesis by (subst formatBits.simps) (simp add: is_digit_digit_of)
  next
    case False
    then have "list_all is_digit (formatBits (n div 10))" using 1 by simp
    then show ?thesis using False by (subst formatBits.simps) (simp add: is_digit_digit_of)
  qed
qed

lemma formatBits_not_Nil: "formatBits n \<noteq> []"
  by (subst formatBits.simps) simp

lemma ParseUint_loop_append:
  "ParseUint_loop a (xs @ ys) =
     (case ParseUint_loop a xs of Value m \<Rightarrow> ParseUint_loop m ys | BadSyntax \<Rightarrow> BadSyntax | OutOfRange \<Rightarrow> OutOfRange)"
  by (induction xs arbitrary: a) auto

lemma ParseUint_loop_formatBits: "n < 2 ^ 64 \<Longrightarrow> ParseUint_loop 0 (formatBits n) = Value n"
proof (induction n rule: formatBits.induct)
  case (1 n)
  show ?case
  proof (cases "n < 10")
    case True
    then show ?thesis
      by (subst formatBits.simps) (simp add: is_digit_digit_of digit_val_digit_of)
  next
    case False
    have "n div 10 < 2 ^ 64" using "1.prems" by (simp add: div_less_dividend less_imp_le less_trans)
    then have ih: "ParseUint_loop 0 (formatBits (n div 10)) = Value (n div 10)" using 1 False by simp
    have m: "n mod 10 < 10" by simp
    have e: "n div 10 * 10 + n mod 10 = n" by simp
    show ?thesis using False "1.prems"
      by (subst formatBits.simps)
         (simp add: ParseUint_loop_append ih is_digit_digit_of[OF m] digit_val_digit_of[OF m] e)
  qed
qed

lemma is_digit_not_sign: "is_digit c \<Longrightarrow> c \<noteq> CHR ''+'' \<and> c \<noteq> CHR ''-''"
  by (auto simp: is_digit_def)

lemma digits_hd: "ds \<noteq> [] \<Longrightarrow> list_all is_digit ds \<Longrightarrow> is_digit (hd ds)"
  by (cases ds) auto

lemma Atoi_digits_eq:
  assumes "ds \<noteq> []" "list_all is_digit ds"
  shows "Atoi ds =
     (case ParseUint_loop 0 ds of
        BadSyntax \<Rightarrow> (0, Some (NumErrSyntax ds))
      | OutOfRange \<Rightarrow> (2 ^ 63 - 1, Some (NumErrRange ds))
      | Value un \<Rightarrow> if 2 ^ 63 \<le> un then (2 ^ 63 - 1, Some (NumErrRange ds)) else (of_nat un, None))"
proof -
  have "hd ds \<noteq> CHR ''+''" "hd ds \<noteq> CHR ''-''"
    using is_digit_not_sign[OF digits_hd[OF assms]] by auto
  then show ?thesis using assms(1) by (simp add: Atoi_def split: scan.splits)
qed

lemma sint_of_nat_small: "n < 2 ^ 63 \<Longrightarrow> sint (of_nat n :: 64 word) = int n"
proof -
  assume a: "n < 2 ^ 63"
  have "int n < 2 ^ 63" using a by (metis of_nat_less_iff of_nat_numeral of_nat_power)
  moreover have "- (2 ^ 63) \<le> int n" by simp
  ultimately have "signed_take_bit 63 (int n) = int n" by (rule signed_take_bit_int_eq_self[rotated])
  then show ?thesis by (simp add: signed_of_nat)
qed

lemma of_nat_nat_sint: "0 \<le> sint (w :: 64 word) \<Longrightarrow> of_nat (nat (sint w)) = w"
  by simp

lemma nat_sint_bound: "nat (sint (w :: 64 word)) < 2 ^ 63"
  using sint_lt[of w] by (simp add: nat_less_iff)

lemma Atoi_Itoa: "0 \<le> sint w \<Longrightarrow> Atoi (Itoa w) = (w, None)"
proof -
  assume a: "0 \<le> sint w"
  let ?n = "nat (sint w)"
  have b: "?n < 2 ^ 63" by (rule nat_sint_bound)
  then have c: "?n < 2 ^ 64" by simp
  have "Atoi (formatBits ?n) = (of_nat ?n, None)"
    using b by (simp add: Atoi_digits_eq[OF formatBits_not_Nil formatBits_digits] ParseUint_loop_formatBits[OF c])
  then show ?thesis using a by (simp add: Itoa_def)
qed

lemma ParseUint_loop_Value:
  "list_all is_digit ds \<Longrightarrow> ParseUint_loop a ds = Value m \<Longrightarrow>
     m = foldl (\<lambda>a c. a * 10 + digit_val c) a ds"
  by (induction ds arbitrary: a) (auto split: if_splits)

lemma Atoi_digits_value:
  assumes "ds \<noteq> []" "list_all is_digit ds" "Atoi ds = (v, None)"
  shows "sint v = int (dec_val ds)"
proof -
  from assms(3) obtain un where u: "ParseUint_loop 0 ds = Value un" "un < 2 ^ 63" "v = of_nat un"
    by (auto simp: Atoi_digits_eq[OF assms(1,2)] split: scan.splits if_splits)
  have "un = dec_val ds" using ParseUint_loop_Value[OF assms(2) u(1)] by (simp add: dec_val_def)
  then show ?thesis using u by (simp add: sint_of_nat_small)
qed

subsection \<open>The groups of a match\<close>

lemma replicate_10: "replicate 10 x = [x, x, x, x, x, x, x, x, x, x]"
  by (simp add: numeral_eq_Suc)

lemma update_empty_id: "caps ! n = [] \<Longrightarrow> caps[n := []] = caps"
  by (metis list_update_id)

lemma opt_tok_step:
  assumes "opt_tok n c (s, caps) = (s', caps')" "caps ! n = []"
  shows "\<exists>g. s = g @ s' \<and> caps' = caps[n := g] \<and> numeral_group c g"
proof (cases "tok c s")
  case True
  then have d: "dropWhile is_digit s \<noteq> []" and h: "hd (dropWhile is_digit s) = c"
    and t: "takeWhile is_digit s \<noteq> []" by (auto simp: tok_def)
  have s': "s' = tl (dropWhile is_digit s)" and c': "caps' = caps[n := takeWhile is_digit s @ [c]]"
    using assms(1) True by (auto simp: opt_tok_def)
  have "dropWhile is_digit s = c # s'" using d h s' by (cases "dropWhile is_digit s") auto
  then have "s = (takeWhile is_digit s @ [c]) @ s'"
    using takeWhile_dropWhile_id[of is_digit s] by simp
  moreover have "numeral_group c (takeWhile is_digit s @ [c])"
    using t by (simp add: numeral_group_def list_all_iff) (meson set_takeWhileD)
  ultimately show ?thesis using c' by blast
next
  case False
  then have "s' = s" "caps' = caps" using assms(1) by (auto simp: opt_tok_def)
  then show ?thesis using assms(2) by (intro exI[of _ "[]"]) (simp add: numeral_group_def update_empty_id)
qed

lemma opt_lit_step:
  assumes "opt_lit n c (s, caps) = (s', caps')" "caps ! n = []"
  shows "\<exists>g. s = g @ s' \<and> caps' = caps[n := g] \<and> (g = [] \<or> g = [c])"
proof (cases "s \<noteq> [] \<and> hd s = c")
  case True
  then have "s' = tl s" "caps' = caps[n := [c]]" using assms(1) by (auto simp: opt_lit_def)
  moreover have "s = [c] @ tl s" using True by (cases s) auto
  ultimately show ?thesis by blast
next
  case False
  then have "s' = s" "caps' = caps" using assms(1) by (auto simp: opt_lit_def)
  then show ?thesis using assms(2) by (intro exI[of _ "[]"]) (simp add: update_empty_id)
qed

lemma opt_digits_step:
  assumes "opt_digits n (s, caps) = (s', caps')" "caps ! n = []"
  shows "\<exists>g. s = g @ s' \<and> caps' = caps[n := g] \<and> list_all is_digit g"
proof (cases "takeWhile is_digit s \<noteq> []")
  case True
  then have "s' = dropWhile is_digit s" "caps' = caps[n := takeWhile is_digit s]"
    using assms(1) by (auto simp: opt_digits_def)
  moreover have "list_all is_digit (takeWhile is_digit s)"
    by (simp add: list_all_iff) (meson set_takeWhileD)
  ultimately show ?thesis using takeWhile_dropWhile_id[of is_digit s] by metis
next
  case False
  then have "s' = s" "caps' = caps" using assms(1) by (auto simp: opt_digits_def)
  then show ?thesis using assms(2) by (intro exI[of _ "[]"]) (simp add: update_empty_id)
qed

lemma skip_slash_step:
  assumes "skip_slash (s, caps) = (s', caps')"
  shows "\<exists>g. s = g @ s' \<and> caps' = caps \<and> (g = [] \<or> g = ''/'')"
proof (cases "s \<noteq> [] \<and> hd s = CHR ''/''")
  case True
  then have "s' = tl s" "caps' = caps" using assms by (auto simp: skip_slash_def)
  moreover have "s = ''/'' @ tl s" using True by (cases s) auto
  ultimately show ?thesis by blast
next
  case False
  then have "s' = s" "caps' = caps" using assms by (auto simp: skip_slash_def)
  then show ?thesis by auto
qed

lemma scan_head_step:
  assumes "scan_head (s, replicate 10 []) = Some (s', caps')"
  shows "\<exists>g1 g2 sl. s = g1 @ g2 @ sl @ ''P'' @ s' \<and> caps' = [[], g1, g2, [], [], [], [], [], [], []]
           \<and> (g1 = [] \<or> g1 = ''R'') \<and> list_all is_digit g2 \<and> (sl = [] \<or> sl = ''/'')"
proof -
  let ?c0 = "replicate 10 ([] :: string)"
  obtain s1 c1 where o1: "opt_lit 1 CHR ''R'' (s, ?c0) = (s1, c1)" by (cases "opt_lit 1 CHR ''R'' (s, ?c0)")
  obtain s2 c2 where o2: "opt_digits 2 (s1, c1) = (s2, c2)" by (cases "opt_digits 2 (s1, c1)")
  obtain s3 c3 where o3: "skip_slash (s2, c2) = (s3, c3)" by (cases "skip_slash (s2, c2)")
  have p: "s3 \<noteq> []" "hd s3 = CHR ''P''" "s' = tl s3" "caps' = c3"
    using assms unfolding scan_head_def o1 o2 o3 by (auto split: if_splits)
  obtain g1 where g1: "s = g1 @ s1" "c1 = ?c0[1 := g1]" "g1 = [] \<or> g1 = ''R''"
    using opt_lit_step[OF o1] by auto
  have "c1 ! 2 = []" using g1(2) by (simp add: replicate_10)
  then obtain g2 where g2: "s1 = g2 @ s2" "c2 = c1[2 := g2]" "list_all is_digit g2"
    using opt_digits_step[OF o2] by auto
  obtain sl where sl: "s2 = sl @ s3" "c3 = c2" "sl = [] \<or> sl = ''/''"
    using skip_slash_step[OF o3] by auto
  have "s3 = ''P'' @ s'" using p by (cases s3) auto
  then have "s = g1 @ g2 @ sl @ ''P'' @ s'" using g1(1) g2(1) sl(1) by simp
  moreover have "caps' = [[], g1, g2, [], [], [], [], [], [], []]"
    using p(4) sl(2) g2(2) g1(2) by (simp add: replicate_10 numeral_eq_Suc)
  ultimately show ?thesis using g1(3) g2(3) sl(3) by blast
qed

lemma scan_tail_step:
  assumes "scan_tail (s, [w, g1, g2, [], [], [], [], [], [], []]) = (s', caps')"
  shows "\<exists>g3 g4 g5 g6 g7 g8 g9. s = g3 @ g4 @ g5 @ g6 @ g7 @ g8 @ g9 @ s'
           \<and> caps' = [w, g1, g2, g3, g4, g5, g6, g7, g8, g9]
           \<and> numeral_group CHR ''Y'' g3 \<and> numeral_group CHR ''M'' g4 \<and> numeral_group CHR ''D'' g5
           \<and> (g6 = [] \<or> g6 = ''T'')
           \<and> numeral_group CHR ''H'' g7 \<and> numeral_group CHR ''M'' g8 \<and> numeral_group CHR ''S'' g9"
proof -
  let ?c = "[w, g1, g2, [], [], [], [], [], [], []]"
  obtain s3 c3 where o3: "opt_tok 3 CHR ''Y'' (s, ?c) = (s3, c3)" by (cases "opt_tok 3 CHR ''Y'' (s, ?c)")
  obtain s4 c4 where o4: "opt_tok 4 CHR ''M'' (s3, c3) = (s4, c4)" by (cases "opt_tok 4 CHR ''M'' (s3, c3)")
  obtain s5 c5 where o5: "opt_tok 5 CHR ''D'' (s4, c4) = (s5, c5)" by (cases "opt_tok 5 CHR ''D'' (s4, c4)")
  obtain s6 c6 where o6: "opt_lit 6 CHR ''T'' (s5, c5) = (s6, c6)" by (cases "opt_lit 6 CHR ''T'' (s5, c5)")
  obtain s7 c7 where o7: "opt_tok 7 CHR ''H'' (s6, c6) = (s7, c7)" by (cases "opt_tok 7 CHR ''H'' (s6, c6)")
  obtain s8 c8 where o8: "opt_tok 8 CHR ''M'' (s7, c7) = (s8, c8)" by (cases "opt_tok 8 CHR ''M'' (s7, c7)")
  obtain s9 c9 where o9: "opt_tok 9 CHR ''S'' (s8, c8) = (s9, c9)" by (cases "opt_tok 9 CHR ''S'' (s8, c8)")
  have fin: "s' = s9" "caps' = c9"
    using assms unfolding scan_tail_def o3 o4 o5 o6 o7 o8 o9 by auto
  obtain g3 where g3: "s = g3 @ s3" "c3 = ?c[3 := g3]" "numeral_group CHR ''Y'' g3"
    using opt_tok_step[OF o3] by (auto simp: numeral_eq_Suc)
  have c3: "c3 = [w, g1, g2, g3, [], [], [], [], [], []]" using g3(2) by (simp add: numeral_eq_Suc)
  obtain g4 where g4: "s3 = g4 @ s4" "c4 = c3[4 := g4]" "numeral_group CHR ''M'' g4"
    using opt_tok_step[OF o4] c3 by (auto simp: numeral_eq_Suc)
  have c4: "c4 = [w, g1, g2, g3, g4, [], [], [], [], []]" using g4(2) c3 by (simp add: numeral_eq_Suc)
  obtain g5 where g5: "s4 = g5 @ s5" "c5 = c4[5 := g5]" "numeral_group CHR ''D'' g5"
    using opt_tok_step[OF o5] c4 by (auto simp: numeral_eq_Suc)
  have c5: "c5 = [w, g1, g2, g3, g4, g5, [], [], [], []]" using g5(2) c4 by (simp add: numeral_eq_Suc)
  obtain g6 where g6: "s5 = g6 @ s6" "c6 = c5[6 := g6]" "g6 = [] \<or> g6 = ''T''"
    using opt_lit_step[OF o6] c5 by (auto simp: numeral_eq_Suc)
  have c6: "c6 = [w, g1, g2, g3, g4, g5, g6, [], [], []]" using g6(2) c5 by (simp add: numeral_eq_Suc)
  obtain g7 where g7: "s6 = g7 @ s7" "c7 = c6[7 := g7]" "numeral_group CHR ''H'' g7"
    using opt_tok_step[OF o7] c6 by (auto simp: numeral_eq_Suc)
  have c7: "c7 = [w, g1, g2, g3, g4, g5, g6, g7, [], []]" using g7(2) c6 by (simp add: numeral_eq_Suc)
  obtain g8 where g8: "s7 = g8 @ s8" "c8 = c7[8 := g8]" "numeral_group CHR ''M'' g8"
    using opt_tok_step[OF o8] c7 by (auto simp: numeral_eq_Suc)
  have c8: "c8 = [w, g1, g2, g3, g4, g5, g6, g7, g8, []]" using g8(2) c7 by (simp add: numeral_eq_Suc)
  obtain g9 where g9: "s8 = g9 @ s9" "c9 = c8[9 := g9]" "numeral_group CHR ''S'' g9"
    using opt_tok_step[OF o9] c8 by (auto simp: numeral_eq_Suc)
  have c9: "c9 = [w, g1, g2, g3, g4, g5, g6, g7, g8, g9]" using g9(2) c8 by (simp add: numeral_eq_Suc)
  have "s = g3 @ g4 @ g5 @ g6 @ g7 @ g8 @ g9 @ s'"
    using g3(1) g4(1) g5(1) g6(1) g7(1) g8(1) g9(1) fin(1) by simp
  then show ?thesis using c9 fin(2) g3(3) g4(3) g5(3) g6(3) g7(3) g8(3) g9(3) by blast
qed

lemma FindStringSubmatch_here:
  assumes "scan_head (s, replicate 10 []) = Some st"
  shows "match_shape (FindStringSubmatch s) \<and> (\<exists>post. s = FindStringSubmatch s ! 0 @ post)"
proof -
  obtain u c where st: "st = (u, c)" by (cases st)
  obtain g1 g2 sl where h: "s = g1 @ g2 @ sl @ ''P'' @ u" "c = [[], g1, g2, [], [], [], [], [], [], []]"
      "g1 = [] \<or> g1 = ''R''" "list_all is_digit g2" "sl = [] \<or> sl = ''/''"
    using scan_head_step[OF assms[unfolded st]] by blast
  obtain u' c' where t: "scan_tail (u, c) = (u', c')" by (cases "scan_tail (u, c)")
  obtain g3 g4 g5 g6 g7 g8 g9 where g: "u = g3 @ g4 @ g5 @ g6 @ g7 @ g8 @ g9 @ u'"
      "c' = [[], g1, g2, g3, g4, g5, g6, g7, g8, g9]"
      "numeral_group CHR ''Y'' g3" "numeral_group CHR ''M'' g4" "numeral_group CHR ''D'' g5"
      "g6 = [] \<or> g6 = ''T''"
      "numeral_group CHR ''H'' g7" "numeral_group CHR ''M'' g8" "numeral_group CHR ''S'' g9"
    using scan_tail_step[OF t[unfolded h(2)]] by blast
  let ?w = "g1 @ g2 @ sl @ ''P'' @ g3 @ g4 @ g5 @ g6 @ g7 @ g8 @ g9"
  have s: "s = ?w @ u'" using h(1) g(1) by simp
  have "length s - length u' = length ?w" by (subst s) simp
  then have "take (length s - length u') s = ?w" by (subst (2) s) simp
  then have m: "FindStringSubmatch s = [?w, g1, g2, g3, g4, g5, g6, g7, g8, g9]"
    using assms st t g(2) by (subst FindStringSubmatch_scan) simp
  have "match_shape [?w, g1, g2, g3, g4, g5, g6, g7, g8, g9]"
    unfolding match_shape_def using h(3,4,5) g(3-9) by auto
  moreover have "s = [?w, g1, g2, g3, g4, g5, g6, g7, g8, g9] ! 0 @ u'" using s by simp
  ultimately show ?thesis unfolding m by blast
qed

lemma FindStringSubmatch_structure:
  "FindStringSubmatch s \<noteq> [] \<Longrightarrow>
     match_shape (FindStringSubmatch s) \<and> (\<exists>pre post. s = pre @ FindStringSubmatch s ! 0 @ post)"
proof (induction s)
  case Nil
  show ?case
  proof (cases "scan_head ([], replicate 10 [])")
    case None
    then have "FindStringSubmatch [] = []" by (subst FindStringSubmatch_scan) simp
    then show ?thesis using Nil by simp
  next
    case (Some st)
    show ?thesis using FindStringSubmatch_here[OF Some] by (metis append_Nil)
  qed
next
  case (Cons x t)
  show ?case
  proof (cases "scan_head (x # t, replicate 10 [])")
    case None
    then have e: "FindStringSubmatch (x # t) = FindStringSubmatch t"
      by (subst FindStringSubmatch_scan) simp
    then have "FindStringSubmatch t \<noteq> []" using Cons.prems by simp
    from Cons.IH[OF this] obtain pre post where
      d: "match_shape (FindStringSubmatch t)" "t = pre @ FindStringSubmatch t ! 0 @ post"
      by blast
    have "x # t = (x # pre) @ FindStringSubmatch t ! 0 @ post" using d(2) by simp
    then show ?thesis unfolding e using d(1) by blast
  next
    case (Some st)
    show ?thesis using FindStringSubmatch_here[OF Some] by (metis append_Nil)
  qed
qed

lemma scan_head_P: "scan_head (CHR ''P'' # t, caps) = Some (t, caps)"
  by (simp add: scan_head_def opt_lit_def opt_digits_def skip_slash_def)

lemma match_shape_P: "match_shape m \<Longrightarrow> CHR ''P'' \<in> set (m ! 0)"
  unfolding match_shape_def by auto

lemma match_shape_not_Nil: "match_shape m \<Longrightarrow> m \<noteq> []"
  unfolding match_shape_def by auto

lemma FindStringSubmatch_Nil_iff: "FindStringSubmatch s = [] \<longleftrightarrow> CHR ''P'' \<notin> set s"
proof
  assume "FindStringSubmatch s = []"
  then show "CHR ''P'' \<notin> set s"
  proof (induction s)
    case Nil
    then show ?case by simp
  next
    case (Cons x t)
    show ?case
    proof (cases "scan_head (x # t, replicate 10 [])")
      case None
      then have "FindStringSubmatch (x # t) = FindStringSubmatch t"
        by (subst FindStringSubmatch_scan) simp
      then have "CHR ''P'' \<notin> set t" using Cons by simp
      moreover have "x \<noteq> CHR ''P''" using None scan_head_P by auto
      ultimately show ?thesis by simp
    next
      case (Some st)
      then show ?thesis using FindStringSubmatch_here[OF Some] Cons.prems match_shape_not_Nil by auto
    qed
  qed
next
  assume n: "CHR ''P'' \<notin> set s"
  show "FindStringSubmatch s = []"
  proof (rule ccontr)
    assume "FindStringSubmatch s \<noteq> []"
    from FindStringSubmatch_structure[OF this] obtain pre post where
      "match_shape (FindStringSubmatch s)" "s = pre @ FindStringSubmatch s ! 0 @ post" by blast
    then have "CHR ''P'' \<in> set s" using match_shape_P by (metis Un_iff set_append)
    then show False using n by simp
  qed
qed

subsection \<open>The steps of \<open>Parse\<close>\<close>

lemma bind_err_Inr: "bind_err x f = Inr p \<longleftrightarrow> (\<exists>r. x = Inr r \<and> f r = Inr p)"
  by (cases x) (auto simp: bind_err_def)

lemma bind_err_Inl: "bind_err x f = Inl e \<longleftrightarrow> (x = Inl e \<or> (\<exists>r. x = Inr r \<and> f r = Inl e))"
  by (cases x) (auto simp: bind_err_def)

lemma parse_field_Inr:
  assumes "parse_field m k store r = Inr p" "store 0 r = r"
  shows "\<exists>v. field_conv m k = (v, None) \<and> p = store v r"
proof (cases "m ! k = []")
  case True
  then show ?thesis using assms by (simp add: parse_field_def field_conv_def)
next
  case False
  then show ?thesis using assms(1)
    by (cases "Atoi (butlast (m ! k))") (auto simp: parse_field_def field_conv_def split: option.splits)
qed

lemma parse_field_Inl:
  "parse_field m k store r = Inl e \<Longrightarrow> \<exists>v. field_conv m k = (v, Some e)"
  by (cases "Atoi (butlast (m ! k))") (auto simp: parse_field_def field_conv_def split: option.splits if_splits)

lemma parse_field_ok:
  assumes "field_conv m k = (v, None)" "store 0 r = r"
  shows "parse_field m k store r = Inr (store v r)"
  using assms by (auto simp: parse_field_def field_conv_def)

lemma parse_Repetitions_Inr:
  assumes "parse_Repetitions m r = Inr p" "r\<lparr>Repetitions := 0\<rparr> = r"
  shows "\<exists>v. rep_conv m = (v, None) \<and> p = r\<lparr>Repetitions := v\<rparr>"
proof (cases "m ! 1 = ''R''")
  case True
  then show ?thesis using assms(1)
    by (cases "Atoi (m ! 2)") (auto simp: parse_Repetitions_def rep_conv_def split: option.splits if_splits)
next
  case False
  then show ?thesis using assms by (simp add: parse_Repetitions_def rep_conv_def)
qed

lemma parse_Repetitions_Inl:
  "parse_Repetitions m r = Inl e \<Longrightarrow> \<exists>v. rep_conv m = (v, Some e)"
  by (cases "Atoi (m ! 2)") (auto simp: parse_Repetitions_def rep_conv_def split: option.splits if_splits)

lemma parse_Repetitions_ok:
  assumes "rep_conv m = (v, None)" "r\<lparr>Repetitions := 0\<rparr> = r"
  shows "parse_Repetitions m r = Inr (r\<lparr>Repetitions := v\<rparr>)"
  using assms by (auto simp: parse_Repetitions_def rep_conv_def split: if_splits)

lemma Atoi_error_kind: "Atoi x = (v, Some e) \<Longrightarrow> e = NumErrSyntax x \<or> e = NumErrRange x"
  by (auto simp: Atoi_def Let_def split: if_splits scan.splits)

lemma rep_conv_error_kind: "rep_conv m = (v, Some e) \<Longrightarrow> \<exists>x. e = NumErrSyntax x \<or> e = NumErrRange x"
  by (auto simp: rep_conv_def split: if_splits dest: Atoi_error_kind)

lemma field_conv_error_kind: "field_conv m k = (v, Some e) \<Longrightarrow> \<exists>x. e = NumErrSyntax x \<or> e = NumErrRange x"
  by (auto simp: field_conv_def split: if_splits dest: Atoi_error_kind)

lemma Parse_invalid:
  "FindStringSubmatch s = [] \<Longrightarrow> Parse s = (None, Some (ErrorString ''invalid repeat format''))"
  by (simp add: Parse_def)

lemma Parse_cases: "(\<exists>e. Parse s = (None, Some e)) \<or> (\<exists>p. Parse s = (Some p, None))"
  by (auto simp: Parse_def Let_def split: sum.splits)

lemma Parse_ok:
  assumes "FindStringSubmatch s = m" "m \<noteq> []"
    and "rep_conv m = (rep, None)" "field_conv m 3 = (y, None)" "field_conv m 4 = (mo, None)"
    and "field_conv m 5 = (d, None)" "field_conv m 7 = (h, None)" "field_conv m 8 = (mi, None)"
    and "field_conv m 9 = (se, None)"
  shows "Parse s = (Some (New () rep y mo d h mi se), None)"
proof -
  let ?r0 = "zero_Period\<lparr>Repetitions := 0, time := 0\<rparr>"
  let ?r1 = "?r0\<lparr>Repetitions := rep\<rparr>"
  let ?r3 = "?r1\<lparr>Year := y\<rparr>"
  let ?r4 = "?r3\<lparr>Month := mo\<rparr>"
  let ?r5 = "?r4\<lparr>Day := d\<rparr>"
  let ?r7 = "?r5\<lparr>Hour := h, time := time ?r5 + h * Hour_d\<rparr>"
  let ?r8 = "?r7\<lparr>Minute := mi, time := time ?r7 + mi * Minute_d\<rparr>"
  let ?r9 = "?r8\<lparr>Second := se, time := time ?r8 + se * Second_d\<rparr>"
  have s1: "parse_Repetitions m ?r0 = Inr ?r1"
    by (rule parse_Repetitions_ok[OF assms(3)]) (simp add: zero_Period_def)
  have s3: "parse_field m 3 (\<lambda>v r. r\<lparr>Year := v\<rparr>) ?r1 = Inr ?r3"
    by (rule parse_field_ok[OF assms(4)]) (simp add: zero_Period_def)
  have s4: "parse_field m 4 (\<lambda>v r. r\<lparr>Month := v\<rparr>) ?r3 = Inr ?r4"
    by (rule parse_field_ok[OF assms(5)]) (simp add: zero_Period_def)
  have s5: "parse_field m 5 (\<lambda>v r. r\<lparr>Day := v\<rparr>) ?r4 = Inr ?r5"
    by (rule parse_field_ok[OF assms(6)]) (simp add: zero_Period_def)
  have s7: "parse_field m 7 (\<lambda>v r. r\<lparr>Hour := v, time := time r + v * Hour_d\<rparr>) ?r5 = Inr ?r7"
    by (rule parse_field_ok[OF assms(7)]) (simp add: zero_Period_def)
  have s8: "parse_field m 8 (\<lambda>v r. r\<lparr>Minute := v, time := time r + v * Minute_d\<rparr>) ?r7 = Inr ?r8"
    by (rule parse_field_ok[OF assms(8)]) (simp add: zero_Period_def)
  have s9: "parse_field m 9 (\<lambda>v r. r\<lparr>Second := v, time := time r + v * Second_d\<rparr>) ?r8 = Inr ?r9"
    by (rule parse_field_ok[OF assms(9)]) (simp add: zero_Period_def)
  have e: "?r9 = New () rep y mo d h mi se"
    by (simp add: New_def zero_Period_def)
  show ?thesis unfolding Parse_def Let_def assms(1)
    by (simp only: length_0_conv assms(2) if_False bind_err_def s1 s3 s4 s5 s7 s8 s9 sum.case e)
qed

lemma Parse_Some:
  assumes "Parse s = (Some p, None)"
  shows "\<exists>rep y mo d h mi se.
           FindStringSubmatch s \<noteq> []
         \<and> rep_conv (FindStringSubmatch s) = (rep, None)
         \<and> field_conv (FindStringSubmatch s) 3 = (y, None)
         \<and> field_conv (FindStringSubmatch s) 4 = (mo, None)
         \<and> field_conv (FindStringSubmatch s) 5 = (d, None)
         \<and> field_conv (FindStringSubmatch s) 7 = (h, None)
         \<and> field_conv (FindStringSubmatch s) 8 = (mi, None)
         \<and> field_conv (FindStringSubmatch s) 9 = (se, None)
         \<and> p = New () rep y mo d h mi se"
proof -
  let ?m = "FindStringSubmatch s"
  let ?r0 = "zero_Period\<lparr>Repetitions := 0, time := 0\<rparr>"
  have ne: "?m \<noteq> []" using assms by (auto simp: Parse_def)
  have "bind_err (bind_err (bind_err (bind_err (bind_err (bind_err
                (parse_Repetitions ?m ?r0)
                (parse_field ?m 3 (\<lambda>v r. r\<lparr>Year := v\<rparr>)))
                (parse_field ?m 4 (\<lambda>v r. r\<lparr>Month := v\<rparr>)))
                (parse_field ?m 5 (\<lambda>v r. r\<lparr>Day := v\<rparr>)))
                (parse_field ?m 7 (\<lambda>v r. r\<lparr>Hour := v, time := time r + v * Hour_d\<rparr>)))
                (parse_field ?m 8 (\<lambda>v r. r\<lparr>Minute := v, time := time r + v * Minute_d\<rparr>)))
                (parse_field ?m 9 (\<lambda>v r. r\<lparr>Second := v, time := time r + v * Second_d\<rparr>)) = Inr p"
    using assms ne by (auto simp: Parse_def Let_def split: sum.splits)
  then obtain r1 r3 r4 r5 r7 r8 where
    c: "parse_Repetitions ?m ?r0 = Inr r1"
       "parse_field ?m 3 (\<lambda>v r. r\<lparr>Year := v\<rparr>) r1 = Inr r3"
       "parse_field ?m 4 (\<lambda>v r. r\<lparr>Month := v\<rparr>) r3 = Inr r4"
       "parse_field ?m 5 (\<lambda>v r. r\<lparr>Day := v\<rparr>) r4 = Inr r5"
       "parse_field ?m 7 (\<lambda>v r. r\<lparr>Hour := v, time := time r + v * Hour_d\<rparr>) r5 = Inr r7"
       "parse_field ?m 8 (\<lambda>v r. r\<lparr>Minute := v, time := time r + v * Minute_d\<rparr>) r7 = Inr r8"
       "parse_field ?m 9 (\<lambda>v r. r\<lparr>Second := v, time := time r + v * Second_d\<rparr>) r8 = Inr p"
    unfolding bind_err_Inr by blast
  obtain rep where v1: "rep_conv ?m = (rep, None)" "r1 = ?r0\<lparr>Repetitions := rep\<rparr>"
    using parse_Repetitions_Inr[OF c(1)] by (auto simp: zero_Period_def)
  obtain y where v3: "field_conv ?m 3 = (y, None)" "r3 = r1\<lparr>Year := y\<rparr>"
    using parse_field_Inr[OF c(2)] v1(2) by (auto simp: zero_Period_def)
  obtain mo where v4: "field_conv ?m 4 = (mo, None)" "r4 = r3\<lparr>Month := mo\<rparr>"
    using parse_field_Inr[OF c(3)] v1(2) v3(2) by (auto simp: zero_Period_def)
  obtain d where v5: "field_conv ?m 5 = (d, None)" "r5 = r4\<lparr>Day := d\<rparr>"
    using parse_field_Inr[OF c(4)] v1(2) v3(2) v4(2) by (auto simp: zero_Period_def)
  obtain h where v7: "field_conv ?m 7 = (h, None)" "r7 = r5\<lparr>Hour := h, time := time r5 + h * Hour_d\<rparr>"
    using parse_field_Inr[OF c(5)] v1(2) v3(2) v4(2) v5(2) by (auto simp: zero_Period_def)
  obtain mi where v8: "field_conv ?m 8 = (mi, None)" "r8 = r7\<lparr>Minute := mi, time := time r7 + mi * Minute_d\<rparr>"
    using parse_field_Inr[OF c(6)] v1(2) v3(2) v4(2) v5(2) v7(2) by (auto simp: zero_Period_def)
  obtain se where v9: "field_conv ?m 9 = (se, None)" "p = r8\<lparr>Second := se, time := time r8 + se * Second_d\<rparr>"
    using parse_field_Inr[OF c(7)] v1(2) v3(2) v4(2) v5(2) v7(2) v8(2) by (auto simp: zero_Period_def)
  have "p = New () rep y mo d h mi se"
    unfolding v9(2) v8(2) v7(2) v5(2) v4(2) v3(2) v1(2) by (simp add: New_def zero_Period_def)
  then show ?thesis using ne v1(1) v3(1) v4(1) v5(1) v7(1) v8(1) v9(1) by blast
qed

lemma Parse_error_kind:
  assumes "FindStringSubmatch s \<noteq> []" "Parse s = (None, Some e)"
  shows "\<exists>x. e = NumErrSyntax x \<or> e = NumErrRange x"
proof -
  let ?m = "FindStringSubmatch s"
  let ?r0 = "zero_Period\<lparr>Repetitions := 0, time := 0\<rparr>"
  have "bind_err (bind_err (bind_err (bind_err (bind_err (bind_err
                (parse_Repetitions ?m ?r0)
                (parse_field ?m 3 (\<lambda>v r. r\<lparr>Year := v\<rparr>)))
                (parse_field ?m 4 (\<lambda>v r. r\<lparr>Month := v\<rparr>)))
                (parse_field ?m 5 (\<lambda>v r. r\<lparr>Day := v\<rparr>)))
                (parse_field ?m 7 (\<lambda>v r. r\<lparr>Hour := v, time := time r + v * Hour_d\<rparr>)))
                (parse_field ?m 8 (\<lambda>v r. r\<lparr>Minute := v, time := time r + v * Minute_d\<rparr>)))
                (parse_field ?m 9 (\<lambda>v r. r\<lparr>Second := v, time := time r + v * Second_d\<rparr>)) = Inl e"
    using assms by (auto simp: Parse_def Let_def split: sum.splits)
  then have "(\<exists>v. rep_conv ?m = (v, Some e)) \<or> (\<exists>k v. field_conv ?m k = (v, Some e))"
    unfolding bind_err_Inl by (blast dest: parse_Repetitions_Inl parse_field_Inl)
  then show ?thesis using rep_conv_error_kind field_conv_error_kind by blast
qed

subsection \<open>Evaluation on given texts\<close>

lemmas scan_defs = scan_head_def scan_tail_def opt_lit_def opt_digits_def opt_tok_def skip_slash_def
  tok_def is_digit_def replicate_10

lemmas conv_defs = rep_conv_def field_conv_def Atoi_def is_digit_def digit_val_def

lemma digit_of_eqI: "(of_char (digit_of d) :: nat) = of_char c \<Longrightarrow> digit_of d = c"
  by (simp only: of_char_eq_iff)

lemma digit_of_numerals:
  "digit_of 0 = CHR ''0''" "digit_of 1 = CHR ''1''" "digit_of 2 = CHR ''2''" "digit_of 3 = CHR ''3''"
  "digit_of 4 = CHR ''4''" "digit_of 5 = CHR ''5''" "digit_of 6 = CHR ''6''" "digit_of 7 = CHR ''7''"
  "digit_of 8 = CHR ''8''" "digit_of 9 = CHR ''9''" "digit_of (Suc 0) = CHR ''1''"
  by (rule digit_of_eqI, simp add: digit_of_def)+

subsection \<open>The search on a canonical text\<close>

lemma decimal_digits: "list_all is_digit (decimal v)" and decimal_not_Nil: "decimal v \<noteq> []"
  by (simp_all add: decimal_def formatBits_digits formatBits_not_Nil)

lemma takeWhile_digits:
  "list_all is_digit ds \<Longrightarrow> \<not> is_digit c \<Longrightarrow> takeWhile is_digit (ds @ c # r) = ds"
  by (induction ds) auto

lemma dropWhile_digits:
  "list_all is_digit ds \<Longrightarrow> \<not> is_digit c \<Longrightarrow> dropWhile is_digit (ds @ c # r) = c # r"
  by (induction ds) auto

lemma tok_Nil: "\<not> tok c []"
  by (simp add: tok_def)

lemma tok_not_digit: "\<not> is_digit x \<Longrightarrow> \<not> tok c (x # r)"
  by (simp add: tok_def)

lemma tok_digits: "ds \<noteq> [] \<Longrightarrow> list_all is_digit ds \<Longrightarrow> \<not> is_digit x \<Longrightarrow> tok c (ds @ x # r) = (x = c)"
  by (simp add: tok_def takeWhile_digits dropWhile_digits)

lemma tok_component:
  "\<not> is_digit u \<Longrightarrow> tok c (component_text v [u] @ r) = (if 0 < sint v then u = c else tok c r)"
  by (simp add: component_text_def tok_digits decimal_not_Nil decimal_digits)

lemma tok_component_last:
  "\<not> is_digit u \<Longrightarrow> tok c (component_text v [u]) = (0 < sint v \<and> u = c)"
  using tok_component[of u c v "[]"] by (simp add: tok_Nil)

lemma opt_tok_component:
  assumes "\<not> is_digit c" "caps ! n = []" "\<not> tok c r"
  shows "opt_tok n c (component_text v [c] @ r, caps) = (r, caps[n := component_text v [c]])"
proof (cases "0 < sint v")
  case True
  have "tok c (decimal v @ c # r)"
    using tok_digits[OF decimal_not_Nil decimal_digits assms(1)] by simp
  then show ?thesis using True assms(1)
    by (simp add: opt_tok_def component_text_def takeWhile_digits dropWhile_digits decimal_digits)
next
  case False
  then show ?thesis using assms by (simp add: opt_tok_def component_text_def update_empty_id)
qed

lemma opt_tok_component_last:
  assumes "\<not> is_digit c" "caps ! n = []"
  shows "opt_tok n c (component_text v [c], caps) = ([], caps[n := component_text v [c]])"
  using opt_tok_component[OF assms tok_Nil, of v] by simp

lemma scan_clock:
  "opt_tok 9 CHR ''S'' (opt_tok 8 CHR ''M'' (opt_tok 7 CHR ''H'' (opt_lit 6 CHR ''T''
       (clock_T p @ clock_text p, [w, g1, g2, g3, g4, g5, [], [], [], []])))) =
   ([], [w, g1, g2, g3, g4, g5, clock_T p, component_text (Hour p) ''H'',
         component_text (Minute p) ''M'', component_text (Second p) ''S''])"
proof -
  let ?c6 = "[w, g1, g2, g3, g4, g5, clock_T p, [], [], []]"
  have a: "opt_lit 6 CHR ''T'' (clock_T p @ clock_text p, [w, g1, g2, g3, g4, g5, [], [], [], []])
         = (clock_text p, ?c6)"
    by (auto simp: opt_lit_def clock_T_def clock_text_def component_text_def numeral_eq_Suc)
  have h: "opt_tok 7 CHR ''H'' (clock_text p, ?c6) =
        (component_text (Minute p) ''M'' @ component_text (Second p) ''S'',
         ?c6[7 := component_text (Hour p) ''H''])"
    unfolding clock_text_def
    by (rule opt_tok_component) (simp_all add: tok_component tok_component_last tok_Nil numeral_eq_Suc)
  have m: "opt_tok 8 CHR ''M'' (component_text (Minute p) ''M'' @ component_text (Second p) ''S'',
              ?c6[7 := component_text (Hour p) ''H'']) =
        (component_text (Second p) ''S'',
         ?c6[7 := component_text (Hour p) ''H'', 8 := component_text (Minute p) ''M''])"
    by (rule opt_tok_component) (simp_all add: tok_component tok_component_last tok_Nil numeral_eq_Suc)
  have s: "opt_tok 9 CHR ''S'' (component_text (Second p) ''S'',
              ?c6[7 := component_text (Hour p) ''H'', 8 := component_text (Minute p) ''M'']) =
        ([], ?c6[7 := component_text (Hour p) ''H'', 8 := component_text (Minute p) ''M'',
                  9 := component_text (Second p) ''S''])"
    by (rule opt_tok_component_last) (simp_all add: numeral_eq_Suc)
  show ?thesis unfolding a h m s by (simp add: numeral_eq_Suc)
qed

lemma tok_clock: "\<not> tok c (clock_T p @ clock_text p)"
  by (auto simp: clock_T_def clock_text_def component_text_def tok_Nil tok_not_digit)

lemma scan_tail_String:
  "scan_tail (component_text (Year p) ''Y'' @ component_text (Month p) ''M'' @ component_text (Day p) ''D''
                @ clock_T p @ clock_text p, [w, g1, g2, [], [], [], [], [], [], []]) =
   ([], [w, g1, g2, component_text (Year p) ''Y'', component_text (Month p) ''M'',
         component_text (Day p) ''D'', clock_T p, component_text (Hour p) ''H'',
         component_text (Minute p) ''M'', component_text (Second p) ''S''])"
proof -
  let ?c = "[w, g1, g2, [], [], [], [], [], [], []]"
  have y: "opt_tok 3 CHR ''Y'' (component_text (Year p) ''Y'' @ component_text (Month p) ''M''
              @ component_text (Day p) ''D'' @ clock_T p @ clock_text p, ?c) =
        (component_text (Month p) ''M'' @ component_text (Day p) ''D'' @ clock_T p @ clock_text p,
         ?c[3 := component_text (Year p) ''Y''])"
    by (rule opt_tok_component) (simp_all add: tok_component tok_clock numeral_eq_Suc)
  have m: "opt_tok 4 CHR ''M'' (component_text (Month p) ''M'' @ component_text (Day p) ''D''
              @ clock_T p @ clock_text p, ?c[3 := component_text (Year p) ''Y'']) =
        (component_text (Day p) ''D'' @ clock_T p @ clock_text p,
         ?c[3 := component_text (Year p) ''Y'', 4 := component_text (Month p) ''M''])"
    by (rule opt_tok_component) (simp_all add: tok_component tok_clock numeral_eq_Suc)
  have d: "opt_tok 5 CHR ''D'' (component_text (Day p) ''D'' @ clock_T p @ clock_text p,
              ?c[3 := component_text (Year p) ''Y'', 4 := component_text (Month p) ''M'']) =
        (clock_T p @ clock_text p,
         ?c[3 := component_text (Year p) ''Y'', 4 := component_text (Month p) ''M'',
            5 := component_text (Day p) ''D''])"
    by (rule opt_tok_component) (simp_all add: tok_clock numeral_eq_Suc)
  have u: "?c[3 := component_text (Year p) ''Y'', 4 := component_text (Month p) ''M'',
            5 := component_text (Day p) ''D''] =
           [w, g1, g2, component_text (Year p) ''Y'', component_text (Month p) ''M'',
            component_text (Day p) ''D'', [], [], [], []]"
    by (simp add: numeral_eq_Suc)
  show ?thesis unfolding scan_tail_def y m d u by (rule scan_clock)
qed

lemma decimal_Itoa: "0 \<le> sint v \<Longrightarrow> Itoa v = decimal v"
  by (simp add: Itoa_def decimal_def)

lemma Atoi_decimal: "0 \<le> sint v \<Longrightarrow> Atoi (decimal v) = (v, None)"
  using Atoi_Itoa[of v] by (simp add: decimal_Itoa)

lemma sint_0_imp: "sint (v :: 64 word) = 0 \<Longrightarrow> v = 0"
  by (simp add: signed_eq_0_iff)

lemma field_conv_component:
  "0 \<le> sint v \<Longrightarrow> m ! k = component_text v [c] \<Longrightarrow> field_conv m k = (v, None)"
  by (auto simp: field_conv_def component_text_def Atoi_decimal decimal_not_Nil sint_0_imp)

lemma scan_head_R:
  "scan_head (''R'' @ decimal v @ ''/P'' @ r, replicate 10 []) =
     Some (r, [[], ''R'', decimal v, [], [], [], [], [], [], []])"
  by (simp add: scan_head_def opt_lit_def opt_digits_def skip_slash_def replicate_10 numeral_eq_Suc
        takeWhile_digits dropWhile_digits decimal_digits decimal_not_Nil)

lemma canonical_text_positive:
  assumes "0 < sint (Repetitions p)"
    and "0 < sint (Year p) \<or> 0 < sint (Month p) \<or> 0 < sint (Day p)
           \<or> 0 < sint (Hour p) \<or> 0 < sint (Minute p) \<or> 0 < sint (Second p)"
  shows "canonical_text p =
     ''R'' @ decimal (Repetitions p) @ ''/P''
       @ (component_text (Year p) ''Y'' @ component_text (Month p) ''M'' @ component_text (Day p) ''D''
          @ clock_T p @ clock_text p)"
proof -
  have "Repetitions p \<noteq> 0" using assms(1) by auto
  then show ?thesis using assms by (simp add: canonical_text_def clock_T_def clock_text_def)
qed

lemma FindStringSubmatch_canonical:
  assumes "0 < sint (Repetitions p)"
    and "0 < sint (Year p) \<or> 0 < sint (Month p) \<or> 0 < sint (Day p)
           \<or> 0 < sint (Hour p) \<or> 0 < sint (Minute p) \<or> 0 < sint (Second p)"
  shows "FindStringSubmatch (canonical_text p) =
     [canonical_text p, ''R'', decimal (Repetitions p),
      component_text (Year p) ''Y'', component_text (Month p) ''M'', component_text (Day p) ''D'',
      clock_T p, component_text (Hour p) ''H'', component_text (Minute p) ''M'',
      component_text (Second p) ''S'']"
  unfolding canonical_text_positive[OF assms]
  by (subst FindStringSubmatch_scan) (simp only: scan_head_R scan_tail_String option.case prod.case
        list.size length_append diff_zero take_all order_refl add_0_right list_update_code)

subsection \<open>Values of the conversions and parses of given texts\<close>

lemma String_canonical_text: "String p = canonical_text p"
  unfolding String_def canonical_text_def component_text_def decimal_def Itoa_def Let_def
  by (simp split: prod.splits)

lemma field_conv_stored:
  assumes "field_conv m k = (v, None)" "numeral_group c (m ! k)"
  shows "stored (m ! k) c v"
proof (cases "m ! k = []")
  case True
  then show ?thesis using assms(1) by (simp add: field_conv_def stored_def)
next
  case False
  then have g: "butlast (m ! k) \<noteq> []" "list_all is_digit (butlast (m ! k))" "last (m ! k) = c"
    using assms(2) by (auto simp: numeral_group_def)
  have a: "Atoi (butlast (m ! k)) = (v, None)" using assms(1) False by (simp add: field_conv_def)
  have "sint v = int (dec_val (butlast (m ! k)))" by (rule Atoi_digits_value[OF g(1,2) a])
  then show ?thesis using False g by (simp add: stored_def)
qed

lemma rep_conv_value:
  assumes "rep_conv m = (v, None)" "list_all is_digit (m ! 2)"
  shows "sint v = (if m ! 1 = ''R'' then (if m ! 2 = [] then - 1 else int (dec_val (m ! 2))) else 0)"
proof (cases "m ! 1 = ''R'' \<and> m ! 2 \<noteq> []")
  case True
  then have "Atoi (m ! 2) = (v, None)" using assms(1) by (simp add: rep_conv_def)
  then show ?thesis using True Atoi_digits_value[OF _ assms(2)] by simp
next
  case False
  then show ?thesis using assms(1) by (auto simp: rep_conv_def split: if_splits)
qed

lemma ex_P3Y: "FindStringSubmatch ''P3Y9M7DT12H30M50S'' =
   [''P3Y9M7DT12H30M50S'', [], [], ''3Y'', ''9M'', ''7D'', ''T'', ''12H'', ''30M'', ''50S'']"
  by (simp add: FindStringSubmatch_scan scan_defs)

lemma Parse_P3Y: "Parse ''P3Y9M7DT12H30M50S'' = (Some (New () 0 3 9 7 12 30 50), None)"
  by (rule Parse_ok[OF ex_P3Y]) (simp_all add: conv_defs)

lemma ex_PT: "FindStringSubmatch ''PT'' = [''PT'', [], [], [], [], [], ''T'', [], [], []]"
  by (simp add: FindStringSubmatch_scan scan_defs)

lemma Parse_PT: "Parse ''PT'' = (Some (New () 0 0 0 0 0 0 0), None)"
  by (rule Parse_ok[OF ex_PT]) (simp_all add: conv_defs)

lemma ex_P1YT: "FindStringSubmatch ''P1YT'' = [''P1YT'', [], [], ''1Y'', [], [], ''T'', [], [], []]"
  by (simp add: FindStringSubmatch_scan scan_defs)

lemma Parse_P1YT: "Parse ''P1YT'' = (Some (New () 0 1 0 0 0 0 0), None)"
  by (rule Parse_ok[OF ex_P1YT]) (simp_all add: conv_defs)

lemma ex_R: "FindStringSubmatch ''R/PT1M'' = [''R/PT1M'', ''R'', [], [], [], [], ''T'', [], ''1M'', []]"
  by (simp add: FindStringSubmatch_scan scan_defs)

lemma Parse_R: "Parse ''R/PT1M'' = (Some (New () (- 1) 0 0 0 0 1 0), None)"
  by (rule Parse_ok[OF ex_R]) (simp_all add: conv_defs)

lemma ex_R20: "FindStringSubmatch ''R20/P1Y6M2DT2H'' =
    [''R20/P1Y6M2DT2H'', ''R'', ''20'', ''1Y'', ''6M'', ''2D'', ''T'', ''2H'', [], []]"
  by (simp add: FindStringSubmatch_scan scan_defs)

lemma Parse_R20: "Parse ''R20/P1Y6M2DT2H'' = (Some (New () 20 1 6 2 2 0 0), None)"
  by (rule Parse_ok[OF ex_R20]) (simp_all add: conv_defs)

lemma ex_P1M: "FindStringSubmatch ''P1M'' = [''P1M'', [], [], [], ''1M'', [], [], [], [], []]"
  by (simp add: FindStringSubmatch_scan scan_defs)

lemma Parse_P1M: "Parse ''P1M'' = (Some (New () 0 0 1 0 0 0 0), None)"
  by (rule Parse_ok[OF ex_P1M]) (simp_all add: conv_defs)

lemma ex_xPy: "FindStringSubmatch ''xPy'' = [''P'', [], [], [], [], [], [], [], [], []]"
  by (simp add: FindStringSubmatch_scan scan_defs)

lemma Parse_xPy: "Parse ''xPy'' = (Some (New () 0 0 0 0 0 0 0), None)"
  by (rule Parse_ok[OF ex_xPy]) (simp_all add: conv_defs)

lemma ex_big: "FindStringSubmatch ''P9223372036854775808Y'' =
    [''P9223372036854775808Y'', [], [], ''9223372036854775808Y'', [], [], [], [], [], []]"
  by (simp add: FindStringSubmatch_scan scan_defs)

lemma conv_big: "field_conv (FindStringSubmatch ''P9223372036854775808Y'') 3 =
    (2 ^ 63 - 1, Some (NumErrRange ''9223372036854775808''))"
  unfolding ex_big by (simp add: conv_defs)

lemma Parse_big: "Parse ''P9223372036854775808Y'' = (None, Some (NumErrRange ''9223372036854775808''))"
  using conv_big
  by (simp add: Parse_def Let_def ex_big bind_err_def parse_Repetitions_def parse_field_def field_conv_def)

lemma ex_H: "FindStringSubmatch ''PT3000000H'' = [''PT3000000H'', [], [], [], [], [], ''T'', ''3000000H'', [], []]"
  by (simp add: FindStringSubmatch_scan scan_defs)

lemma Parse_H: "Parse ''PT3000000H'' = (Some (New () 0 0 0 0 3000000 0 0), None)"
  by (rule Parse_ok[OF ex_H]) (simp_all add: conv_defs)

lemma Parse_conv_failure:
  assumes "FindStringSubmatch s \<noteq> []"
    and "snd (rep_conv (FindStringSubmatch s)) \<noteq> None
       \<or> snd (field_conv (FindStringSubmatch s) 3) \<noteq> None
       \<or> snd (field_conv (FindStringSubmatch s) 4) \<noteq> None
       \<or> snd (field_conv (FindStringSubmatch s) 5) \<noteq> None
       \<or> snd (field_conv (FindStringSubmatch s) 7) \<noteq> None
       \<or> snd (field_conv (FindStringSubmatch s) 8) \<noteq> None
       \<or> snd (field_conv (FindStringSubmatch s) 9) \<noteq> None"
  shows "\<exists>e x. Parse s = (None, Some e) \<and> (e = NumErrSyntax x \<or> e = NumErrRange x)"
proof -
  have "\<not> (\<exists>p. Parse s = (Some p, None))"
  proof
    assume "\<exists>p. Parse s = (Some p, None)"
    then obtain p where "Parse s = (Some p, None)" by blast
    from Parse_Some[OF this] show False using assms(2) by auto
  qed
  then obtain e where e: "Parse s = (None, Some e)" using Parse_cases[of s] by blast
  from Parse_error_kind[OF assms(1) e] show ?thesis using e by blast
qed

subsection \<open>\<open>Next\<close> on the UTC clock\<close>

lemma d2023: "days_from_civil 2023 1 1 = 19358"
  by (simp add: days_from_civil_def)

lemma d2024: "days_from_civil 2024 7 3 = 19907"
  by (simp add: days_from_civil_def)

lemma d2024b: "days_from_civil 2024 7 1 = 19905"
  by (simp add: days_from_civil_def)

lemma c2023: "civil_from_days 19358 = (2023, 1, 1)"
  by code_simp

lemma dur: "sint (Hour_d * 2 + Minute_d * 0 + Second_d * 0 :: 64 word) = 7200000000000"
  by (simp add: Hour_d_def Minute_d_def Second_d_def Nanosecond_def)

lemma add_date: "utc_AddDate (19358 * ns_per_day) 1 6 2 = 19907 * ns_per_day"
  by (simp add: utc_AddDate_def c2023 d2024b ns_per_day_def)

lemma next_ex:
  "Next utc_Clock (New () 20 1 6 2 2 0 0) (19358 * ns_per_day) =
     (19907 * ns_per_day + 7200000000000, New () 20 1 6 2 2 0 0)"
  using dur add_date by (simp add: Next_def utc_Clock_def New_def zero_Period_def)

subsection \<open>The notification stream\<close>

lemma sint_minus_1: "0 < sint (a :: 64 word) \<Longrightarrow> sint (a - 1) = sint a - 1"
proof -
  assume a: "0 < sint a"
  have b: "sint a < 2 ^ 63" using sint_lt[of a] by simp
  have "a - 1 = word_of_int (sint a - 1)" by simp
  then have "sint (a - 1) = signed_take_bit 63 (sint a - 1)"
    by (simp only: sint_sbintrunc') simp
  also have "\<dots> = sint a - 1"
    using a b by (intro signed_take_bit_int_eq_self) auto
  finally show ?thesis .
qed

lemma goroutine_Exited: "at w = Exited \<Longrightarrow> goroutine e w = w"
  by (cases e) auto

lemma run_Exited: "at w = Exited \<Longrightarrow> run evs w = w"
  unfolding run_def by (induction evs arbitrary: w) (simp_all add: goroutine_Exited)

lemma run_append: "run (xs @ ys) w = run ys (run xs w)"
  by (simp add: run_def)

lemma run_Cons: "run (e # evs) w = run evs (goroutine e w)"
  by (simp add: run_def)

lemma stream_inv_Start: "0 < sint (Repetitions r) \<Longrightarrow> stream_inv (nat (sint (Repetitions r))) (Start r)"
  by (simp add: stream_inv_def Start_def)

lemma stream_inv_goroutine:
  assumes "stream_inv n w"
  shows "stream_inv n (goroutine e w)"
proof (cases e)
  case Begin
  then show ?thesis using assms by (auto simp: stream_inv_def)
next
  case RecvDone
  then show ?thesis using assms by (auto simp: stream_inv_def return_deferred_def split: if_splits)
next
  case (RecvTick t ready)
  show ?thesis
  proof (cases "at w = Selecting")
    case False
    then show ?thesis using assms RecvTick by simp
  next
    case True
    then have i: "length (received w) + nat (sint (amount w)) \<le> n" "0 < sint (amount w)"
      using assms by (simp_all add: stream_inv_def)
    have d: "sint (amount w - 1) = sint (amount w) - 1" by (rule sint_minus_1[OF i(2)])
    have pos: "0 < sint (amount w - 1)" if "amount w - 1 \<noteq> 0"
    proof -
      have "sint (amount w - 1) \<noteq> 0" using that by (simp add: signed_eq_0_iff)
      then show ?thesis using d i(2) by simp
    qed
    show ?thesis
    proof (cases "amount w - 1 = 0")
      case z: True
      then show ?thesis using True RecvTick i
        by (auto simp: stream_inv_def return_deferred_def Let_def)
    next
      case nz: False
      then show ?thesis using True RecvTick i d pos[OF nz]
        by (auto simp: stream_inv_def Let_def)
    qed
  qed
qed

lemma stream_inv_run: "stream_inv n w \<Longrightarrow> stream_inv n (run evs w)"
  by (induction evs arbitrary: w) (simp_all add: run_def stream_inv_goroutine)

lemma stream_inv_received: "stream_inv n w \<Longrightarrow> length (received w) \<le> n"
  by (auto simp: stream_inv_def split: if_splits)

lemma Stop_after_exit:
  "stream_inv n w \<Longrightarrow> at w = Exited \<Longrightarrow> sender w = ClosedChan \<and> Stop w = (Returned, w)"
  by (simp add: stream_inv_def Stop_def)

lemma ticks_exhaust:
  assumes "at w = Selecting" "0 < sint (amount w)" "length ts = nat (sint (amount w))"
  shows "at (run (map (\<lambda>t. RecvTick t True) ts) w) = Exited
       \<and> received (run (map (\<lambda>t. RecvTick t True) ts) w) = received w @ ts"
  using assms
proof (induction ts arbitrary: w)
  case Nil
  then show ?case by simp
next
  case (Cons t ts)
  have d: "sint (amount w - 1) = sint (amount w) - 1" by (rule sint_minus_1[OF Cons.prems(2)])
  show ?case
  proof (cases "amount w - 1 = 0")
    case True
    then have "sint (amount w) = 1" using d by simp
    then have "ts = []" using Cons.prems(3) by simp
    then show ?thesis using True Cons.prems(1,2)
      by (simp add: run_def return_deferred_def Let_def)
  next
    case False
    let ?w = "goroutine (RecvTick t True) w"
    have g: "?w = w\<lparr>received := received w @ [t], amount := amount w - 1\<rparr>"
      using False Cons.prems(1,2) by (simp add: Let_def)
    have "sint (amount w - 1) \<noteq> 0" using False by (simp add: signed_eq_0_iff)
    then have p: "0 < sint (amount ?w)" using d Cons.prems(2) g by simp
    have a: "at ?w = Selecting" using g Cons.prems(1) by simp
    have l: "length ts = nat (sint (amount ?w))" using Cons.prems(3) d g by simp
    from Cons.IH[OF a p l] show ?thesis using g by (simp add: run_Cons)
  qed
qed

lemma Begin_Start:
  "goroutine Begin (Start r) = (Start r)\<lparr>period := (period (Start r))\<lparr>running := True\<rparr>, at := Selecting\<rparr>"
  by (simp add: Start_def)

section \<open>The claims\<close>

subsection \<open>C3: the canonical text\<close>

text \<open>
  C3. For every period, \<open>String\<close> returns exactly the canonical text: the prefix \<open>R/\<close>
  when \<open>Repetitions\<close> is 0, \<open>R<n>/\<close> when it is positive and no prefix when it is
  negative; then \<open>P\<close>; then the strictly positive calendar components in the order Y, M,
  D; then, if a clock component is positive, a single \<open>T\<close> and the strictly positive
  clock components in the order H, M, S; and \<open>T0S\<close> when no component is positive.
  \<open>String\<close> is a function of the period alone and has a value for every period.
\<close>

theorem String_canonical: "String p = canonical_text p"
  by (rule String_canonical_text)

subsection \<open>C4: \<open>Next\<close> of a period without repetitions\<close>

text \<open>
  C4. For every period whose \<open>Repetitions\<close> is 0 and every reference time, \<open>Next\<close>
  returns the zero time, whatever the reference time is.
\<close>

theorem Next_zero_repetitions:
  "Repetitions p = 0 \<Longrightarrow> fst (Next clk p t) = zero_Time clk"
  by (simp add: Next_def)

theorem Next_zero_repetitions_witness:
  "Repetitions (New () 0 3 9 7 12 30 50) = 0 \<and>
   fst (Next utc_Clock (New () 0 3 9 7 12 30 50) (days_from_civil 2023 1 1 * ns_per_day))
     = zero_Time utc_Clock"
proof -
  have h: "Repetitions (New () 0 3 9 7 12 30 50) = 0"
    by (simp add: New_def zero_Period_def)
  show ?thesis
    using h Next_zero_repetitions [OF h, of utc_Clock "days_from_civil 2023 1 1 * ns_per_day"]
    by simp
qed

subsection \<open>C1: parsing the canonical text\<close>

text \<open>
  C1, as the code has it. For every period whose \<open>Repetitions\<close> is positive and whose
  components are all non-negative and not all zero, \<open>Parse (String p)\<close> succeeds and
  yields a period whose \<open>Repetitions\<close>, \<open>Year\<close>, \<open>Month\<close>, \<open>Day\<close>, \<open>Hour\<close>, \<open>Minute\<close>
  and \<open>Second\<close> are those of \<open>p\<close>.
\<close>

theorem Parse_String_roundtrip:
  assumes rep: "0 < sint (Repetitions p)"
    and nonneg: "0 \<le> sint (Year p)" "0 \<le> sint (Month p)" "0 \<le> sint (Day p)"
      "0 \<le> sint (Hour p)" "0 \<le> sint (Minute p)" "0 \<le> sint (Second p)"
    and some: "\<not> (Year p = 0 \<and> Month p = 0 \<and> Day p = 0 \<and> Hour p = 0 \<and> Minute p = 0 \<and> Second p = 0)"
  shows "\<exists>q. Parse (String p) = (Some q, None)
           \<and> Repetitions q = Repetitions p \<and> Year q = Year p \<and> Month q = Month p
           \<and> Day q = Day p \<and> Hour q = Hour p \<and> Minute q = Minute p \<and> Second q = Second p"
proof -
  have pos: "0 < sint v" if "0 \<le> sint v" "v \<noteq> 0" for v :: go_int
    using that sint_0_imp[of v] by (cases "sint v = 0") auto
  have one: "0 < sint (Year p) \<or> 0 < sint (Month p) \<or> 0 < sint (Day p)
           \<or> 0 < sint (Hour p) \<or> 0 < sint (Minute p) \<or> 0 < sint (Second p)"
    using some nonneg pos by blast
  let ?m = "[canonical_text p, ''R'', decimal (Repetitions p),
      component_text (Year p) ''Y'', component_text (Month p) ''M'', component_text (Day p) ''D'',
      clock_T p, component_text (Hour p) ''H'', component_text (Minute p) ''M'',
      component_text (Second p) ''S'']"
  have m: "FindStringSubmatch (String p) = ?m"
    unfolding String_canonical_text by (rule FindStringSubmatch_canonical[OF rep one])
  have r: "rep_conv ?m = (Repetitions p, None)"
    using rep by (simp add: rep_conv_def decimal_not_Nil Atoi_decimal)
  have "Parse (String p) =
          (Some (New () (Repetitions p) (Year p) (Month p) (Day p) (Hour p) (Minute p) (Second p)), None)"
    by (rule Parse_ok[OF m _ r]) (simp_all add: field_conv_component nonneg)
  then show ?thesis by (simp add: New_def zero_Period_def)
qed

theorem Parse_String_roundtrip_witness:
  "0 < sint (Repetitions (New () 20 1 6 2 2 0 0))
   \<and> (\<exists>q. Parse (String (New () 20 1 6 2 2 0 0)) = (Some q, None)
          \<and> Repetitions q = 20 \<and> Year q = 1 \<and> Month q = 6 \<and> Day q = 2
          \<and> Hour q = 2 \<and> Minute q = 0 \<and> Second q = 0)"
  using Parse_String_roundtrip [of "New () 20 1 6 2 2 0 0"]
  by (simp add: New_def zero_Period_def)

text \<open>
  The claim as stated allows \<open>Repetitions = 0\<close> and negative components. With
  \<open>Repetitions = 0\<close> the text is \<open>R/P1Y\<close>, which \<open>Parse\<close> reads as the unbounded
  repetition \<open>- 1\<close>; a negative component is left out of the text and comes back as 0.
\<close>

theorem Parse_String_roundtrip_counterexample:
  "0 \<le> sint (Repetitions (New () 0 1 0 0 0 0 0)) \<and> Year (New () 0 1 0 0 0 0 0) \<noteq> 0
   \<and> String (New () 0 1 0 0 0 0 0) = ''R/P1Y''
   \<and> Parse (String (New () 0 1 0 0 0 0 0)) = (Some (New () (- 1) 1 0 0 0 0 0), None)
   \<and> Repetitions (New () (- 1) 1 0 0 0 0 0) \<noteq> Repetitions (New () 0 1 0 0 0 0 0)
   \<and> 0 \<le> sint (Repetitions (New () 1 (- 1) 1 0 0 0 0)) \<and> Month (New () 1 (- 1) 1 0 0 0 0) \<noteq> 0
   \<and> String (New () 1 (- 1) 1 0 0 0 0) = ''R1/P1M''
   \<and> Parse (String (New () 1 (- 1) 1 0 0 0 0)) = (Some (New () 1 0 1 0 0 0 0), None)
   \<and> Year (New () 1 0 1 0 0 0 0) \<noteq> Year (New () 1 (- 1) 1 0 0 0 0)"
proof -
  have s1: "String (New () 0 1 0 0 0 0 0) = ''R/P1Y''"
    by (simp add: String_canonical_text canonical_text_def component_text_def decimal_def New_def
          zero_Period_def formatBits.simps digit_of_numerals)
  have s2: "String (New () 1 (- 1) 1 0 0 0 0) = ''R1/P1M''"
    by (simp add: String_canonical_text canonical_text_def component_text_def decimal_def New_def
          zero_Period_def formatBits.simps digit_of_numerals)
  have m1: "FindStringSubmatch ''R/P1Y'' = [''R/P1Y'', ''R'', [], ''1Y'', [], [], [], [], [], []]"
    by (simp add: FindStringSubmatch_scan scan_defs)
  have m2: "FindStringSubmatch ''R1/P1M'' = [''R1/P1M'', ''R'', ''1'', [], ''1M'', [], [], [], [], []]"
    by (simp add: FindStringSubmatch_scan scan_defs)
  have p1: "Parse ''R/P1Y'' = (Some (New () (- 1) 1 0 0 0 0 0), None)"
    by (rule Parse_ok[OF m1]) (simp_all add: conv_defs)
  have p2: "Parse ''R1/P1M'' = (Some (New () 1 0 1 0 0 0 0), None)"
    by (rule Parse_ok[OF m2]) (simp_all add: conv_defs)
  show ?thesis unfolding s1 s2 p1 p2 by (simp add: New_def zero_Period_def)
qed

subsection \<open>C2: the repetition prefix\<close>

text \<open>
  C2. In a successful parse the repetition count follows the first two groups of the match:
  a match that starts with \<open>R\<close> and has no digits after it gives \<open>Repetitions = - 1\<close>; \<open>R\<close>
  followed by digits gives the decimal value of those digits; a match without the leading
  \<open>R\<close> gives \<open>Repetitions = 0\<close>. The first group is \<open>R\<close> or takes no part in the match,
  and the second holds digits only.
\<close>

theorem Parse_repetition_prefix:
  assumes "Parse s = (Some p, None)"
  shows "sint (Repetitions p) =
           (if FindStringSubmatch s ! 1 = ''R''
            then (if FindStringSubmatch s ! 2 = [] then - 1 else int (dec_val (FindStringSubmatch s ! 2)))
            else 0)
       \<and> (FindStringSubmatch s ! 1 = ''R'' \<or> FindStringSubmatch s ! 1 = [])
       \<and> list_all is_digit (FindStringSubmatch s ! 2)"
proof -
  obtain rep y mo d h mi se where
    c: "FindStringSubmatch s \<noteq> []" "rep_conv (FindStringSubmatch s) = (rep, None)"
       "p = New () rep y mo d h mi se"
    using Parse_Some[OF assms] by blast
  have sh: "match_shape (FindStringSubmatch s)"
    using FindStringSubmatch_structure[OF c(1)] by blast
  then have g: "FindStringSubmatch s ! 1 = [] \<or> FindStringSubmatch s ! 1 = ''R''"
      "list_all is_digit (FindStringSubmatch s ! 2)"
    by (simp_all add: match_shape_def)
  have "Repetitions p = rep" using c(3) by (simp add: New_def zero_Period_def)
  then show ?thesis using rep_conv_value[OF c(2) g(2)] g by auto
qed

theorem Parse_repetition_prefix_witness:
  "Parse ''R/PT1M'' = (Some (New () (- 1) 0 0 0 0 1 0), None)
   \<and> sint (Repetitions (New () (- 1) 0 0 0 0 1 0)) = - 1
   \<and> Parse ''R20/P1Y6M2DT2H'' = (Some (New () 20 1 6 2 2 0 0), None)
   \<and> sint (Repetitions (New () 20 1 6 2 2 0 0)) = 20
   \<and> Parse ''P1M'' = (Some (New () 0 0 1 0 0 0 0), None)
   \<and> sint (Repetitions (New () 0 0 1 0 0 0 0)) = 0"
proof -
  have d: "dec_val ''20'' = 20" by (simp add: dec_val_def digit_val_def)
  show ?thesis
    using Parse_repetition_prefix [OF Parse_R] Parse_repetition_prefix [OF Parse_R20]
      Parse_repetition_prefix [OF Parse_P1M]
    by (simp add: Parse_R Parse_R20 Parse_P1M ex_R ex_R20 ex_P1M d)
qed

subsection \<open>C6: the components of a parsed period\<close>

text \<open>
  C6. In a successfully parsed period each of the six components holds what its group of
  the match says: 0 when the group took no part, and otherwise the value of the group's
  base-10 numeral, which is not negative. A \<open>T\<close> with no clock field after it is
  accepted: \<open>PT\<close> and \<open>P1YT\<close> parse. In particular \<open>P3Y9M7DT12H30M50S\<close> parses to
  \<open>Repetitions\<close> 0, \<open>Year\<close> 3, \<open>Month\<close> 9, \<open>Day\<close> 7, \<open>Hour\<close> 12, \<open>Minute\<close> 30 and
  \<open>Second\<close> 50.
\<close>

theorem Parse_components:
  assumes "Parse s = (Some p, None)"
  shows "stored (FindStringSubmatch s ! 3) CHR ''Y'' (Year p)
       \<and> stored (FindStringSubmatch s ! 4) CHR ''M'' (Month p)
       \<and> stored (FindStringSubmatch s ! 5) CHR ''D'' (Day p)
       \<and> stored (FindStringSubmatch s ! 7) CHR ''H'' (Hour p)
       \<and> stored (FindStringSubmatch s ! 8) CHR ''M'' (Minute p)
       \<and> stored (FindStringSubmatch s ! 9) CHR ''S'' (Second p)
       \<and> Parse ''PT'' = (Some zero_Period, None)
       \<and> Parse ''P1YT'' = (Some (zero_Period\<lparr>Year := 1\<rparr>), None)
       \<and> Parse ''P3Y9M7DT12H30M50S'' =
           (Some \<lparr>Repetitions = 0, Year = 3, Month = 9, Day = 7, Hour = 12, Minute = 30,
                  Second = 50, time = 45050000000000, done_ch = NilChan, running = False\<rparr>, None)"
proof -
  let ?m = "FindStringSubmatch s"
  obtain rep y mo d h mi se where
    c: "?m \<noteq> []" "field_conv ?m 3 = (y, None)" "field_conv ?m 4 = (mo, None)"
       "field_conv ?m 5 = (d, None)" "field_conv ?m 7 = (h, None)" "field_conv ?m 8 = (mi, None)"
       "field_conv ?m 9 = (se, None)" "p = New () rep y mo d h mi se"
    using Parse_Some[OF assms] by blast
  have sh: "match_shape ?m" using FindStringSubmatch_structure[OF c(1)] by blast
  have f: "Year p = y" "Month p = mo" "Day p = d" "Hour p = h" "Minute p = mi" "Second p = se"
    using c(8) by (simp_all add: New_def zero_Period_def)
  have "stored (?m ! 3) CHR ''Y'' (Year p)"
    unfolding f using sh by (intro field_conv_stored[OF c(2)]) (simp add: match_shape_def)
  moreover have "stored (?m ! 4) CHR ''M'' (Month p)"
    unfolding f using sh by (intro field_conv_stored[OF c(3)]) (simp add: match_shape_def)
  moreover have "stored (?m ! 5) CHR ''D'' (Day p)"
    unfolding f using sh by (intro field_conv_stored[OF c(4)]) (simp add: match_shape_def)
  moreover have "stored (?m ! 7) CHR ''H'' (Hour p)"
    unfolding f using sh by (intro field_conv_stored[OF c(5)]) (simp add: match_shape_def)
  moreover have "stored (?m ! 8) CHR ''M'' (Minute p)"
    unfolding f using sh by (intro field_conv_stored[OF c(6)]) (simp add: match_shape_def)
  moreover have "stored (?m ! 9) CHR ''S'' (Second p)"
    unfolding f using sh by (intro field_conv_stored[OF c(7)]) (simp add: match_shape_def)
  moreover have "Parse ''PT'' = (Some zero_Period, None)"
    by (simp add: Parse_PT New_def zero_Period_def)
  moreover have "Parse ''P1YT'' = (Some (zero_Period\<lparr>Year := 1\<rparr>), None)"
    by (simp add: Parse_P1YT New_def zero_Period_def)
  moreover have "Parse ''P3Y9M7DT12H30M50S'' =
           (Some \<lparr>Repetitions = 0, Year = 3, Month = 9, Day = 7, Hour = 12, Minute = 30,
                  Second = 50, time = 45050000000000, done_ch = NilChan, running = False\<rparr>, None)"
    by (simp add: Parse_P3Y New_def zero_Period_def Hour_d_def Minute_d_def Second_d_def Nanosecond_def)
  ultimately show ?thesis by blast
qed

theorem Parse_components_witness:
  "Parse ''R20/P1Y6M2DT2H'' = (Some (New () 20 1 6 2 2 0 0), None)
   \<and> stored ''1Y'' CHR ''Y'' (Year (New () 20 1 6 2 2 0 0))
   \<and> stored ''6M'' CHR ''M'' (Month (New () 20 1 6 2 2 0 0))
   \<and> stored ''2D'' CHR ''D'' (Day (New () 20 1 6 2 2 0 0))
   \<and> stored ''2H'' CHR ''H'' (Hour (New () 20 1 6 2 2 0 0))
   \<and> stored [] CHR ''M'' (Minute (New () 20 1 6 2 2 0 0))
   \<and> stored [] CHR ''S'' (Second (New () 20 1 6 2 2 0 0))"
  using Parse_components [OF Parse_R20] by (simp add: Parse_R20 ex_R20)

subsection \<open>C7: errors of \<open>Parse\<close>\<close>

text \<open>
  C7. When the pattern matches nowhere, \<open>Parse\<close> returns the error
  \<open>invalid repeat format\<close>, and no conversion has produced it; \<open>garbage\<close> is such a text.
  When the pattern matches and one of the conversions \<open>Parse\<close> makes fails, \<open>Parse\<close>
  returns that conversion's error. Whenever \<open>Parse\<close> returns an error it returns no
  period, and it returns one of the two.
\<close>

theorem Parse_errors:
  "(FindStringSubmatch s = [] \<longrightarrow> Parse s = (None, Some (ErrorString ''invalid repeat format'')))
   \<and> (FindStringSubmatch s \<noteq> []
        \<and> (snd (rep_conv (FindStringSubmatch s)) \<noteq> None
           \<or> snd (field_conv (FindStringSubmatch s) 3) \<noteq> None
           \<or> snd (field_conv (FindStringSubmatch s) 4) \<noteq> None
           \<or> snd (field_conv (FindStringSubmatch s) 5) \<noteq> None
           \<or> snd (field_conv (FindStringSubmatch s) 7) \<noteq> None
           \<or> snd (field_conv (FindStringSubmatch s) 8) \<noteq> None
           \<or> snd (field_conv (FindStringSubmatch s) 9) \<noteq> None)
      \<longrightarrow> (\<exists>e x. Parse s = (None, Some e) \<and> (e = NumErrSyntax x \<or> e = NumErrRange x)))
   \<and> (snd (Parse s) \<noteq> None \<longrightarrow> fst (Parse s) = None)
   \<and> (fst (Parse s) = None \<longrightarrow> snd (Parse s) \<noteq> None)
   \<and> Parse ''garbage'' = (None, Some (ErrorString ''invalid repeat format''))"
proof -
  have a: "FindStringSubmatch s = [] \<longrightarrow> Parse s = (None, Some (ErrorString ''invalid repeat format''))"
    by (simp add: Parse_invalid)
  have b: "snd (Parse s) \<noteq> None \<longrightarrow> fst (Parse s) = None"
    using Parse_cases[of s] by auto
  have c: "fst (Parse s) = None \<longrightarrow> snd (Parse s) \<noteq> None"
    using Parse_cases[of s] by auto
  have "FindStringSubmatch ''garbage'' = []" by (simp add: FindStringSubmatch_Nil_iff)
  then have d: "Parse ''garbage'' = (None, Some (ErrorString ''invalid repeat format''))"
    by (rule Parse_invalid)
  show ?thesis using a b c d Parse_conv_failure[of s] by blast
qed

theorem Parse_errors_witness:
  "FindStringSubmatch ''garbage'' = []
   \<and> Parse ''garbage'' = (None, Some (ErrorString ''invalid repeat format''))
   \<and> FindStringSubmatch ''P9223372036854775808Y'' \<noteq> []
   \<and> snd (field_conv (FindStringSubmatch ''P9223372036854775808Y'') 3) \<noteq> None
   \<and> Parse ''P9223372036854775808Y'' = (None, Some (NumErrRange ''9223372036854775808''))
   \<and> fst (Parse ''P9223372036854775808Y'') = None"
  using Parse_errors [of "''garbage''"] Parse_errors [of "''P9223372036854775808Y''"]
  by (simp add: FindStringSubmatch_Nil_iff conv_big Parse_big)

subsection \<open>C9: which texts are refused as invalid\<close>

text \<open>
  C9. \<open>Parse\<close> returns the error \<open>invalid repeat format\<close> exactly when the text holds
  no \<open>P\<close>: the search is not anchored and every token but \<open>P\<close> is optional. So a text
  with a \<open>P\<close> anywhere is not refused as invalid: \<open>xPy\<close> parses to the period whose
  fields are all 0.
\<close>

theorem Parse_invalid_format_iff:
  "(Parse s = (None, Some (ErrorString ''invalid repeat format''))) = (CHR ''P'' \<notin> set s)
   \<and> Parse ''xPy'' = (Some zero_Period, None)"
proof -
  have "Parse s = (None, Some (ErrorString ''invalid repeat format''))" if "CHR ''P'' \<notin> set s"
    using that by (simp add: Parse_invalid FindStringSubmatch_Nil_iff)
  moreover have "CHR ''P'' \<notin> set s" if p: "Parse s = (None, Some (ErrorString ''invalid repeat format''))"
  proof (rule ccontr)
    assume "\<not> CHR ''P'' \<notin> set s"
    then have "FindStringSubmatch s \<noteq> []" by (simp add: FindStringSubmatch_Nil_iff)
    from Parse_error_kind[OF this p] show False by auto
  qed
  moreover have "Parse ''xPy'' = (Some zero_Period, None)"
    by (simp add: Parse_xPy New_def zero_Period_def)
  ultimately show ?thesis by blast
qed

theorem Parse_invalid_format_iff_witness:
  "CHR ''P'' \<notin> set ''garbage''
   \<and> Parse ''garbage'' = (None, Some (ErrorString ''invalid repeat format''))
   \<and> CHR ''P'' \<in> set ''xPy''
   \<and> Parse ''xPy'' \<noteq> (None, Some (ErrorString ''invalid repeat format''))"
  using Parse_invalid_format_iff [of "''garbage''"] Parse_invalid_format_iff [of "''xPy''"]
  by simp

subsection \<open>C8: the cached duration\<close>

text \<open>
  C8, as the code has it. For every period made by \<open>New\<close> or by a successful \<open>Parse\<close>,
  the cached duration is \<open>Hour * 3600 + Minute * 60 + Second\<close> seconds in the wrapping
  64-bit nanosecond arithmetic of \<open>time.Duration\<close>; it is exactly that many seconds
  whenever that number of nanoseconds lies in the signed 64-bit range.
\<close>

theorem cached_duration:
  assumes "p = New now rep y mo d h mi se \<or> Parse s = (Some p, None)"
  shows "time p = (Hour p * 3600 + Minute p * 60 + Second p) * Second_d
       \<and> (- (2 ^ 63) \<le> (sint (Hour p) * 3600 + sint (Minute p) * 60 + sint (Second p)) * 1000000000
          \<and> (sint (Hour p) * 3600 + sint (Minute p) * 60 + sint (Second p)) * 1000000000 < 2 ^ 63
          \<longrightarrow> sint (time p) = (sint (Hour p) * 3600 + sint (Minute p) * 60 + sint (Second p)) * 1000000000)"
proof -
  obtain rep' y' mo' d' h' mi' se' where n: "p = New () rep' y' mo' d' h' mi' se'"
    using assms Parse_Some[of s p] by (auto simp: New_def)
  have w: "time p = (Hour p * 3600 + Minute p * 60 + Second p) * Second_d"
    unfolding n by (simp add: New_def zero_Period_def Hour_d_def Minute_d_def Second_d_def
          Nanosecond_def algebra_simps)
  let ?T = "(sint (Hour p) * 3600 + sint (Minute p) * 60 + sint (Second p)) * 1000000000"
  have "time p = word_of_int ?T"
    unfolding w by (simp add: Second_d_def Nanosecond_def)
  then have "sint (time p) = signed_take_bit 63 ?T"
    by (simp only: sint_sbintrunc') simp
  then have "sint (time p) = ?T" if "- (2 ^ 63) \<le> ?T" "?T < 2 ^ 63"
    using that by (simp only: signed_take_bit_int_eq_self)
  then show ?thesis using w by blast
qed

theorem cached_duration_witness:
  "Parse ''R20/P1Y6M2DT2H'' = (Some (New () 20 1 6 2 2 0 0), None)
   \<and> time (New () 20 1 6 2 2 0 0) = 7200 * Second_d
   \<and> sint (time (New () 20 1 6 2 2 0 0)) = 7200 * 1000000000"
  using cached_duration [of "New () 20 1 6 2 2 0 0" "()" 20 1 6 2 2 0 0 "''R20/P1Y6M2DT2H''"]
  by (simp add: Parse_R20 New_def zero_Period_def Hour_d_def Minute_d_def Second_d_def Nanosecond_def)

text \<open>
  Three million hours do not fit: \<open>New\<close> and \<open>Parse\<close> keep the hours, and the cached
  duration wraps around to a negative number of nanoseconds.
\<close>

theorem cached_duration_counterexample:
  "Parse ''PT3000000H'' = (Some (New () 0 0 0 0 3000000 0 0), None)
   \<and> sint (Hour (New () 0 0 0 0 3000000 0 0)) = 3000000
   \<and> sint (Minute (New () 0 0 0 0 3000000 0 0)) = 0
   \<and> sint (Second (New () 0 0 0 0 3000000 0 0)) = 0
   \<and> sint (time (New () 0 0 0 0 3000000 0 0)) = - 7646744073709551616
   \<and> sint (time (New () 0 0 0 0 3000000 0 0)) \<noteq> (3000000 * 3600 + 0 * 60 + 0) * 1000000000"
  by (simp add: Parse_H New_def zero_Period_def Hour_d_def Minute_d_def Second_d_def Nanosecond_def)

subsection \<open>C5: \<open>Next\<close> of a period with repetitions\<close>

text \<open>
  C5. For every period whose \<open>Repetitions\<close> is not 0 and every reference time, \<open>Next\<close>
  returns the reference time moved by \<open>AddDate\<close> over \<open>Year\<close>, \<open>Month\<close> and \<open>Day\<close> and
  then by \<open>Add\<close> of the duration of \<open>Hour\<close> hours, \<open>Minute\<close> minutes and \<open>Second\<close>
  seconds. The call leaves the period as it was, \<open>Repetitions\<close> included, so calling
  again gives the same result. The duration is a \<open>time.Duration\<close>; it is the exact
  number of nanoseconds whenever that number lies in the signed 64-bit range.
\<close>

theorem Next_repetitions:
  assumes "Repetitions p \<noteq> 0"
  shows "fst (Next clk p t) =
           Add clk (AddDate clk t (Year p) (Month p) (Day p))
             (Hour_d * Hour p + Minute_d * Minute p + Second_d * Second p)
       \<and> snd (Next clk p t) = p
       \<and> Next clk (snd (Next clk p t)) t = Next clk p t
       \<and> (- (2 ^ 63) \<le> (sint (Hour p) * 3600 + sint (Minute p) * 60 + sint (Second p)) * 1000000000
          \<and> (sint (Hour p) * 3600 + sint (Minute p) * 60 + sint (Second p)) * 1000000000 < 2 ^ 63
          \<longrightarrow> sint (Hour_d * Hour p + Minute_d * Minute p + Second_d * Second p)
                = (sint (Hour p) * 3600 + sint (Minute p) * 60 + sint (Second p)) * 1000000000)"
proof -
  let ?T = "(sint (Hour p) * 3600 + sint (Minute p) * 60 + sint (Second p)) * 1000000000"
  let ?D = "Hour_d * Hour p + Minute_d * Minute p + Second_d * Second p"
  have "?D = word_of_int ?T"
    by (simp add: Hour_d_def Minute_d_def Second_d_def Nanosecond_def algebra_simps)
  then have "sint ?D = signed_take_bit 63 ?T"
    by (simp only: sint_sbintrunc') simp
  then have "sint ?D = ?T" if "- (2 ^ 63) \<le> ?T" "?T < 2 ^ 63"
    using that by (simp only: signed_take_bit_int_eq_self)
  then show ?thesis using assms by (simp add: Next_def Let_def)
qed

theorem Next_repetitions_witness:
  "Repetitions (New () 20 1 6 2 2 0 0) \<noteq> 0
   \<and> fst (Next utc_Clock (New () 20 1 6 2 2 0 0) (days_from_civil 2023 1 1 * ns_per_day))
       = days_from_civil 2024 7 3 * ns_per_day + 2 * 3600 * 1000000000
   \<and> snd (Next utc_Clock (New () 20 1 6 2 2 0 0) (days_from_civil 2023 1 1 * ns_per_day))
       = New () 20 1 6 2 2 0 0"
proof -
  have h: "Repetitions (New () 20 1 6 2 2 0 0) \<noteq> 0"
    by (simp add: New_def zero_Period_def)
  show ?thesis
    using h Next_repetitions [OF h, of utc_Clock "days_from_civil 2023 1 1 * ns_per_day"]
    by (simp only: d2023 d2024 next_ex fst_conv snd_conv) simp
qed

subsection \<open>C10: the end of a bounded stream\<close>

text \<open>
  C10. A stream started on a period with \<open>Repetitions = N > 0\<close> delivers at most \<open>N\<close>
  values on the returned channel, whatever the ticks, the consumer and \<open>Stop\<close> do. Once
  the goroutine has returned, the channel is closed, nothing more is delivered, and
  \<open>Stop\<close> returns at once and changes nothing. The stream does end: after \<open>N\<close> ticks
  the goroutine has returned, and a consumer that received at every tick has \<open>N\<close> values.
\<close>

theorem stream_bounded:
  assumes "0 < sint (Repetitions r)"
  shows "length (received (run (evs :: 't event list) (Start r))) \<le> nat (sint (Repetitions r))
       \<and> (at (run evs (Start r)) = Exited \<longrightarrow>
            sender (run evs (Start r)) = ClosedChan
          \<and> run (evs @ later) (Start r) = run evs (Start r)
          \<and> Stop (run evs (Start r)) = (Returned, run evs (Start r)))
       \<and> (length (ts :: 't list) = nat (sint (Repetitions r)) \<longrightarrow>
            at (run (Begin # map (\<lambda>t. RecvTick t True) ts) (Start r)) = Exited
          \<and> received (run (Begin # map (\<lambda>t. RecvTick t True) ts) (Start r)) = ts)"
proof -
  let ?n = "nat (sint (Repetitions r))"
  have inv: "stream_inv ?n (run evs (Start r))"
    by (rule stream_inv_run[OF stream_inv_Start[OF assms]])
  have a: "length (received (run evs (Start r))) \<le> ?n"
    by (rule stream_inv_received[OF inv])
  have b: "sender (run evs (Start r)) = ClosedChan
          \<and> run (evs @ later) (Start r) = run evs (Start r)
          \<and> Stop (run evs (Start r)) = (Returned, run evs (Start r))"
    if e: "at (run evs (Start r)) = Exited"
    using Stop_after_exit[OF inv e] run_Exited[OF e] by (simp add: run_append)
  have c: "at (run (Begin # map (\<lambda>t. RecvTick t True) ts) (Start r)) = Exited
          \<and> received (run (Begin # map (\<lambda>t. RecvTick t True) ts) (Start r)) = ts"
    if l: "length ts = ?n"
  proof -
    let ?w = "goroutine Begin (Start r :: 't World)"
    have w: "at ?w = Selecting" "amount ?w = Repetitions r" "received ?w = []"
      by (simp_all add: Start_def)
    have "at (run (map (\<lambda>t. RecvTick t True) ts) ?w) = Exited
       \<and> received (run (map (\<lambda>t. RecvTick t True) ts) ?w) = received ?w @ ts"
      by (rule ticks_exhaust) (simp_all only: w assms l)
    then show ?thesis by (simp only: run_Cons w append_Nil)
  qed
  show ?thesis using a b c by blast
qed

theorem stream_bounded_witness:
  "0 < sint (Repetitions (New () 3 0 0 0 0 0 1))
   \<and> length (received (run [Begin, RecvTick (1 :: nat) True, RecvTick 2 False, RecvTick 3 True,
                               RecvTick 4 True] (Start (New () 3 0 0 0 0 0 1)))) \<le> 3
   \<and> at (run [Begin, RecvTick (1 :: nat) True, RecvTick 2 False, RecvTick 3 True, RecvTick 4 True]
            (Start (New () 3 0 0 0 0 0 1))) = Exited
   \<and> received (run [Begin, RecvTick (1 :: nat) True, RecvTick 2 False, RecvTick 3 True,
                     RecvTick 4 True] (Start (New () 3 0 0 0 0 0 1))) = [1, 3]
   \<and> fst (Stop (run [Begin, RecvTick (1 :: nat) True, RecvTick 2 False, RecvTick 3 True,
                      RecvTick 4 True] (Start (New () 3 0 0 0 0 0 1)))) = Returned
   \<and> received (run (Begin # map (\<lambda>t. RecvTick t True) [5, 6, 7 :: nat])
                 (Start (New () 3 0 0 0 0 0 1))) = [5, 6, 7]"
proof -
  have h: "0 < sint (Repetitions (New () 3 0 0 0 0 0 1))"
    by (simp add: New_def zero_Period_def)
  have n: "nat (sint (Repetitions (New () 3 0 0 0 0 0 1))) = 3"
    by (simp add: New_def zero_Period_def)
  have e: "at (run [Begin, RecvTick (1 :: nat) True, RecvTick 2 False, RecvTick 3 True, RecvTick 4 True]
            (Start (New () 3 0 0 0 0 0 1))) = Exited"
    by (simp add: run_def Start_def New_def zero_Period_def return_deferred_def Let_def)
  have r: "received (run [Begin, RecvTick (1 :: nat) True, RecvTick 2 False, RecvTick 3 True,
                     RecvTick 4 True] (Start (New () 3 0 0 0 0 0 1))) = [1, 3]"
    by (simp add: run_def Start_def New_def zero_Period_def return_deferred_def Let_def)
  show ?thesis
    using h e r
      stream_bounded [OF h, of "[Begin, RecvTick (1 :: nat) True, RecvTick 2 False, RecvTick 3 True,
                     RecvTick 4 True]" "[]" "[5, 6, 7 :: nat]"]
    by (simp add: n)
qed

end
